theory Spec2Isabelle
  imports Main
begin

section \<open>Data model\<close>

text \<open>
  The engine of \<^verbatim>\<open>src/olive/engine.h\<close> drives a vector of partitions through
  bulk-synchronous supersteps. The kernels receive raw device pointers
  (\<^verbatim>\<open>int *workset\<close>, \<^verbatim>\<open>VertexId *workqueue\<close>, \<^verbatim>\<open>VertexValue *vertexValues\<close>, ...) and
  index them by thread id, by vertex id or by a reserved offset, with no bounds check of
  their own. A device array is therefore a function from offsets to contents, and the
  number of slots the host allocated is kept beside it (\<open>vertexCount\<close>, \<open>maxLength\<close>):
  a write at an offset beyond that number is a write past the buffer, and stays visible
  as such.

  \<^verbatim>\<open>VertexId\<close>, \<^verbatim>\<open>EdgeId\<close>, \<^verbatim>\<open>PartitionId\<close> and \<^verbatim>\<open>size_t\<close> are natural numbers (no
  arithmetic of the engine comes near their width); the workset holds C \<^verbatim>\<open>int\<close>s.
\<close>

text \<open>Modelled from the spec: the struct \<^verbatim>\<open>Vertex\<close> is declared in a header that
  \<^verbatim>\<open>engine.h\<close> includes and whose text is not available. An entry of the \<^verbatim>\<open>edges\<close>
  array is the destination of an edge, a pair \<open>(partitionId, localId)\<close>, read by
  \<^verbatim>\<open>expandKernel\<close> as \<^verbatim>\<open>edges[edge].partitionId\<close> and \<^verbatim>\<open>edges[edge].localId\<close>.\<close>

record Vertex =
  partitionId :: nat
  localId :: nat

text \<open>Modelled from the spec: \<^verbatim>\<open>VertexMessage<MessageValue>\<close> is declared in a header
  whose text is not available. A message is a pair of the receiver's local id and a
  payload: the fields \<^verbatim>\<open>receiverId\<close> and \<^verbatim>\<open>value\<close> that \<^verbatim>\<open>scatterKernel\<close> reads and
  \<^verbatim>\<open>expandKernel\<close> writes (\<open>value_msg\<close> here).\<close>

record 'm VertexMessage =
  receiverId :: nat
  value_msg :: 'm

text \<open>
  Modelled from the spec: the class \<^verbatim>\<open>MessageBox\<close> is declared in a header whose text
  is not available; the engine uses its fields \<^verbatim>\<open>buffer\<close> and \<^verbatim>\<open>length\<close> and its methods \<^verbatim>\<open>clear\<close>,
  \<^verbatim>\<open>recvMsgs\<close> and \<^verbatim>\<open>swapBuffers\<close>. The specification describes a fixed-capacity box
  with two device buffers (the current one and the receive buffer), each with its
  length, where \<^verbatim>\<open>clear\<close> sets the length to 0, \<^verbatim>\<open>recvMsgs\<close> copies the peer outbox's
  buffer (of the peer's length) into the receive buffer, and \<^verbatim>\<open>swapBuffers\<close> exchanges
  the roles of the two buffers without moving data, the new receive buffer's length
  being reset to 0.
\<close>

record 'm MessageBox =
  buffer :: "nat \<Rightarrow> 'm VertexMessage"
  length_mb :: nat
  bufferRecv :: "nat \<Rightarrow> 'm VertexMessage"
  lengthRecv :: nat
  maxLength :: nat

text \<open>Modelled from the spec: \<^verbatim>\<open>MessageBox::clear\<close>, which sets the length to 0.\<close>

definition clear :: "'m MessageBox \<Rightarrow> 'm MessageBox" where
  "clear b = b\<lparr>length_mb := 0\<rparr>"

text \<open>Modelled from the spec: \<^verbatim>\<open>MessageBox::recvMsgs\<close>, the copy of the peer's outbox
  buffer \<open>other\<close>, of length \<open>other.length\<close>, into this box's receive buffer. The
  copy is asynchronous in the source; the engine synchronises every stream before it
  swaps the buffers, so the copy is complete when the next phase reads the box.\<close>

definition recvMsgs :: "'m MessageBox \<Rightarrow> 'm MessageBox \<Rightarrow> 'm MessageBox" where
  "recvMsgs other b =
     b\<lparr>bufferRecv := (\<lambda>k. if k < length_mb other then buffer other k else bufferRecv b k),
       lengthRecv := length_mb other\<rparr>"

text \<open>Modelled from the spec: \<^verbatim>\<open>MessageBox::swapBuffers\<close>, which exchanges the roles of
  the two buffers; the new receive buffer's length is reset to 0.\<close>

definition swapBuffers :: "'m MessageBox \<Rightarrow> 'm MessageBox" where
  "swapBuffers b =
     b\<lparr>buffer := bufferRecv b, length_mb := lengthRecv b,
       bufferRecv := buffer b, lengthRecv := 0\<rparr>"

text \<open>
  Modelled from the spec: the class \<^verbatim>\<open>Partition\<close> is declared in a header whose text is
  not available; its fields are those of the specification's data model, under the
  names by which the engine reaches into them. The partition's own id is
  \<open>partitionId_P\<close> (the source's \<^verbatim>\<open>partitions[i].partitionId\<close>). The host-side
  \<^verbatim>\<open>vertexValues.size()\<close> is the partition's \<open>vertexCount\<close>: the specification gives
  \<open>globalIds\<close>, \<open>vertexValues\<close> and \<open>workset\<close> that many slots. The host and device
  copies of \<^verbatim>\<open>workqueueSize\<close> and of \<^verbatim>\<open>vertexValues\<close> are one field each: the source
  copies one to the other before every use of the other side.
\<close>

record ('v, 'm) Partition =
  partitionId_P :: nat
  vertexCount :: nat
  globalIds :: "nat \<Rightarrow> nat"
  vertices :: "nat \<Rightarrow> nat"
  edges :: "nat \<Rightarrow> Vertex"
  vertexValues :: "nat \<Rightarrow> 'v"
  workset :: "nat \<Rightarrow> int"
  workqueue :: "nat \<Rightarrow> nat"
  workqueueSize :: nat
  outboxes :: "nat \<Rightarrow> 'm MessageBox"
  inboxes :: "nat \<Rightarrow> 'm MessageBox"

text \<open>
  What the host does on the devices, in the order it does it: one event for every kernel
  launch (where the source logs ``launches a ... kernel'') and one for every copy of an
  outbox into an inbox. The trace is ghost state: no decision of the engine reads it.
\<close>

datatype event =
    ScatterLaunch nat nat
  | CompactLaunch nat
  | ExpandLaunch nat
  | RecvMsgs nat nat
  | VertexMapLaunch nat
  | VertexFilterLaunch nat

text \<open>The engine's private state, without the three profiling accumulators (floating
  point timings that no phase reads back) and without the graph-wide vertex count that
  only \<^verbatim>\<open>init\<close> and \<^verbatim>\<open>getVertexCount\<close> touch.\<close>

record ('v, 'm) Engine =
  supersteps :: nat
  terminate :: bool
  partitions :: "('v, 'm) Partition list"
  trace :: "event list"

section \<open>Kernels\<close>

text \<open>
  A kernel is the body of one thread, a function of the thread index. A launch over
  \<open>n\<close> elements runs the body for every thread of the grid that
  \<^verbatim>\<open>util::kernelConfig(n)\<close> chose, in an order the device picks. Neither is fixed by
  the engine's source, and both are a parameter \<open>grid\<close> of the engine: \<open>grid n\<close> lists the thread
  indices of a launch over \<open>n\<close> elements in the order in which they run. A grid is
  admissible when no thread runs twice and every index below \<open>n\<close> runs; it may hold
  further threads, which leave at the kernel's first test. Threads run one after the
  other: the atomic counters serialise the threads of compact and expand, and the
  races on a shared destination slot are resolved in the order of the grid.
\<close>

definition launch :: "nat list \<Rightarrow> (nat \<Rightarrow> 's \<Rightarrow> 's) \<Rightarrow> 's \<Rightarrow> 's" where
  "launch threads body s = fold body threads s"

definition admissible :: "(nat \<Rightarrow> nat list) \<Rightarrow> bool" where
  "admissible grid \<longleftrightarrow> (\<forall>n. distinct (grid n) \<and> {..<n} \<subseteq> set (grid n))"

definition scatterKernel ::
  "'m MessageBox \<Rightarrow> ('v \<Rightarrow> bool) \<Rightarrow> ('v \<Rightarrow> 'v) \<Rightarrow> ('m \<Rightarrow> 'v) \<Rightarrow> nat
     \<Rightarrow> ('v, 'm) Partition \<Rightarrow> ('v, 'm) Partition" where
  "scatterKernel inbox cond update unpack tid p =
     (if tid \<ge> length_mb inbox then p
      else
        let inNode = receiverId (buffer inbox tid);
            newValue = unpack (value_msg (buffer inbox tid))
        in if cond (vertexValues p inNode)
           then p\<lparr>vertexValues := (vertexValues p)(inNode := update newValue),
                  workset := (workset p)(inNode := 1)\<rparr>
           else p)"

definition compactKernel :: "nat \<Rightarrow> nat \<Rightarrow> ('v, 'm) Partition \<Rightarrow> ('v, 'm) Partition" where
  "compactKernel n tid p =
     (if tid \<ge> n then p
      else if workset p tid = 1
      then let offset = workqueueSize p
           in p\<lparr>workset := (workset p)(tid := 0),
                workqueueSize := workqueueSize p + 1,
                workqueue := (workqueue p)(offset := tid)\<rparr>
      else p)"

text \<open>One turn of the edge loop of \<^verbatim>\<open>expandKernel\<close>, for the edge \<open>edge\<close> of the
  queued vertex \<open>outNode\<close>.\<close>

definition expandEdge ::
  "nat \<Rightarrow> ('v \<Rightarrow> bool) \<Rightarrow> ('v \<Rightarrow> 'v) \<Rightarrow> ('v \<Rightarrow> 'm) \<Rightarrow> nat \<Rightarrow> nat
     \<Rightarrow> ('v, 'm) Partition \<Rightarrow> ('v, 'm) Partition" where
  "expandEdge thisPid cond update pack outNode edge p =
     (let pid = Vertex.partitionId (edges p edge)
      in if pid = thisPid
         then
           let inNode = localId (edges p edge)
           in if cond (vertexValues p inNode)
              then p\<lparr>vertexValues := (vertexValues p)(inNode := update (vertexValues p outNode)),
                     workset := (workset p)(inNode := 1)\<rparr>
              else p
         else
           let msg = \<lparr>receiverId = localId (edges p edge),
                      value_msg = pack (vertexValues p outNode)\<rparr>;
               offset = length_mb (outboxes p pid)
           in p\<lparr>outboxes := (outboxes p)
                  (pid := (outboxes p pid)\<lparr>length_mb := offset + 1,
                            buffer := (buffer (outboxes p pid))(offset := msg)\<rparr>)\<rparr>)"

definition expandKernel ::
  "nat \<Rightarrow> nat \<Rightarrow> ('v \<Rightarrow> bool) \<Rightarrow> ('v \<Rightarrow> 'v) \<Rightarrow> ('v \<Rightarrow> 'm) \<Rightarrow> nat
     \<Rightarrow> ('v, 'm) Partition \<Rightarrow> ('v, 'm) Partition" where
  "expandKernel thisPid n cond update pack tid p =
     (if tid \<ge> n then p
      else
        let outNode = workqueue p tid;
            first_e = vertices p outNode;
            last_e = vertices p (outNode + 1)
        in fold (expandEdge thisPid cond update pack outNode) [first_e..<last_e] p)"

definition vertexMapKernel ::
  "nat \<Rightarrow> ('v \<Rightarrow> 'v) \<Rightarrow> nat \<Rightarrow> ('v, 'm) Partition \<Rightarrow> ('v, 'm) Partition" where
  "vertexMapKernel n f tid p =
     (if tid \<ge> n then p
      else p\<lparr>vertexValues := (vertexValues p)(tid := f (vertexValues p tid))\<rparr>)"

definition vertexFilterKernel ::
  "nat \<Rightarrow> nat \<Rightarrow> ('v \<Rightarrow> 'v) \<Rightarrow> nat \<Rightarrow> ('v, 'm) Partition \<Rightarrow> ('v, 'm) Partition" where
  "vertexFilterKernel n vid f tid p =
     (if tid \<ge> n then p
      else if globalIds p tid = vid
      then p\<lparr>vertexValues := (vertexValues p)(tid := f (vertexValues p tid)),
             workset := (workset p)(tid := 1)\<rparr>
      else p)"

section \<open>The engine\<close>

subsection \<open>gather, vertexMap, vertexFilter\<close>

text \<open>\<^verbatim>\<open>gather\<close> calls \<^verbatim>\<open>updateAt\<close>, a \<^verbatim>\<open>void\<close> function that acts on the application's
  global buffers: here a function on a state \<open>'s\<close> of the application.\<close>

definition gather ::
  "(nat \<Rightarrow> 'v \<Rightarrow> 's \<Rightarrow> 's) \<Rightarrow> ('v, 'm) Engine \<Rightarrow> 's \<Rightarrow> 's" where
  "gather updateAt e s =
     fold (\<lambda>i. fold (\<lambda>j. updateAt (globalIds (partitions e ! i) j)
                               (vertexValues (partitions e ! i) j))
                  [0..<vertexCount (partitions e ! i)])
          [0..<length (partitions e)] s"

definition vertexMapStep ::
  "(nat \<Rightarrow> nat list) \<Rightarrow> ('v \<Rightarrow> 'v) \<Rightarrow> nat \<Rightarrow> ('v, 'm) Engine \<Rightarrow> ('v, 'm) Engine" where
  "vertexMapStep grid f i e =
     (let p = partitions e ! i; n = vertexCount p
      in e\<lparr>partitions := (partitions e)[i := launch (grid n) (vertexMapKernel n f) p],
           trace := trace e @ [VertexMapLaunch i]\<rparr>)"

definition vertexMap ::
  "(nat \<Rightarrow> nat list) \<Rightarrow> ('v \<Rightarrow> 'v) \<Rightarrow> ('v, 'm) Engine \<Rightarrow> ('v, 'm) Engine" where
  "vertexMap grid f e = fold (vertexMapStep grid f) [0..<length (partitions e)] e"

definition vertexFilterStep ::
  "(nat \<Rightarrow> nat list) \<Rightarrow> nat \<Rightarrow> ('v \<Rightarrow> 'v) \<Rightarrow> nat \<Rightarrow> ('v, 'm) Engine \<Rightarrow> ('v, 'm) Engine" where
  "vertexFilterStep grid vid f i e =
     (let p = partitions e ! i; n = vertexCount p
      in e\<lparr>partitions := (partitions e)[i := launch (grid n) (vertexFilterKernel n vid f) p],
           trace := trace e @ [VertexFilterLaunch i]\<rparr>)"

definition vertexFilter ::
  "(nat \<Rightarrow> nat list) \<Rightarrow> nat \<Rightarrow> ('v \<Rightarrow> 'v) \<Rightarrow> ('v, 'm) Engine \<Rightarrow> ('v, 'm) Engine" where
  "vertexFilter grid vid f e = fold (vertexFilterStep grid vid f) [0..<length (partitions e)] e"

subsection \<open>The superstep and the run loop\<close>

definition scatterStep ::
  "(nat \<Rightarrow> nat list) \<Rightarrow> ('v \<Rightarrow> bool) \<Rightarrow> ('v \<Rightarrow> 'v) \<Rightarrow> ('m \<Rightarrow> 'v) \<Rightarrow> nat \<Rightarrow> nat
     \<Rightarrow> ('v, 'm) Engine \<Rightarrow> ('v, 'm) Engine" where
  "scatterStep grid cond update unpack i j e =
     (let p = partitions e ! i; inbox = inboxes p j
      in if length_mb inbox = 0 then e
         else e\<lparr>partitions := (partitions e)
                   [i := launch (grid (length_mb inbox))
                           (scatterKernel inbox cond update unpack) p],
                trace := trace e @ [ScatterLaunch i j]\<rparr>)"

definition scatterPhase ::
  "(nat \<Rightarrow> nat list) \<Rightarrow> ('v \<Rightarrow> bool) \<Rightarrow> ('v \<Rightarrow> 'v) \<Rightarrow> ('m \<Rightarrow> 'v)
     \<Rightarrow> ('v, 'm) Engine \<Rightarrow> ('v, 'm) Engine" where
  "scatterPhase grid cond update unpack e =
     (let n = length (partitions e)
      in fold (\<lambda>i. fold (scatterStep grid cond update unpack i) [0..<n]) [0..<n] e)"

definition compactStep ::
  "(nat \<Rightarrow> nat list) \<Rightarrow> nat \<Rightarrow> ('v, 'm) Engine \<Rightarrow> ('v, 'm) Engine" where
  "compactStep grid i e =
     (let p = (partitions e ! i)\<lparr>workqueueSize := 0\<rparr>; n = vertexCount p
      in e\<lparr>partitions := (partitions e)[i := launch (grid n) (compactKernel n) p],
           trace := trace e @ [CompactLaunch i]\<rparr>)"

definition compactPhase ::
  "(nat \<Rightarrow> nat list) \<Rightarrow> ('v, 'm) Engine \<Rightarrow> ('v, 'm) Engine" where
  "compactPhase grid e = fold (compactStep grid) [0..<length (partitions e)] e"

text \<open>The termination probe: the loop that reads every \<^verbatim>\<open>workqueueSize\<close> back and
  clears \<^verbatim>\<open>terminate\<close> when one of them is not zero.\<close>

definition probeStep :: "nat \<Rightarrow> ('v, 'm) Engine \<Rightarrow> ('v, 'm) Engine" where
  "probeStep i e =
     (if workqueueSize (partitions e ! i) \<noteq> 0 then e\<lparr>terminate := False\<rparr> else e)"

definition probePhase :: "('v, 'm) Engine \<Rightarrow> ('v, 'm) Engine" where
  "probePhase e = fold probeStep [0..<length (partitions e)] e"

definition clearOutboxes :: "nat \<Rightarrow> nat \<Rightarrow> ('v, 'm) Partition \<Rightarrow> ('v, 'm) Partition" where
  "clearOutboxes n i p =
     fold (\<lambda>j p. if i = j then p else p\<lparr>outboxes := (outboxes p)(j := clear (outboxes p j))\<rparr>)
          [0..<n] p"

definition expandStep ::
  "(nat \<Rightarrow> nat list) \<Rightarrow> ('v \<Rightarrow> bool) \<Rightarrow> ('v \<Rightarrow> 'v) \<Rightarrow> ('v \<Rightarrow> 'm) \<Rightarrow> nat
     \<Rightarrow> ('v, 'm) Engine \<Rightarrow> ('v, 'm) Engine" where
  "expandStep grid cond update pack i e =
     (if workqueueSize (partitions e ! i) = 0 then e
      else
        let p = clearOutboxes (length (partitions e)) i (partitions e ! i);
            n = workqueueSize p
        in e\<lparr>partitions := (partitions e)
                [i := launch (grid n) (expandKernel (partitionId_P p) n cond update pack) p],
             trace := trace e @ [ExpandLaunch i]\<rparr>)"

definition expandPhase ::
  "(nat \<Rightarrow> nat list) \<Rightarrow> ('v \<Rightarrow> bool) \<Rightarrow> ('v \<Rightarrow> 'v) \<Rightarrow> ('v \<Rightarrow> 'm)
     \<Rightarrow> ('v, 'm) Engine \<Rightarrow> ('v, 'm) Engine" where
  "expandPhase grid cond update pack e =
     fold (expandStep grid cond update pack) [0..<length (partitions e)] e"

text \<open>\<open>recvStep dst src\<close> is
  \<^verbatim>\<open>partitions[dst].inboxes[src].recvMsgs(partitions[src].outboxes[dst], ...)\<close>.\<close>

definition recvStep :: "nat \<Rightarrow> nat \<Rightarrow> ('v, 'm) Engine \<Rightarrow> ('v, 'm) Engine" where
  "recvStep dst src e =
     (let pd = partitions e ! dst; ps = partitions e ! src
      in e\<lparr>partitions := (partitions e)
              [dst := pd\<lparr>inboxes := (inboxes pd)
                                     (src := recvMsgs (outboxes ps dst) (inboxes pd src))\<rparr>],
           trace := trace e @ [RecvMsgs dst src]\<rparr>)"

definition exchangePhase :: "('v, 'm) Engine \<Rightarrow> ('v, 'm) Engine" where
  "exchangePhase e =
     (let n = length (partitions e)
      in fold (\<lambda>i. fold (\<lambda>j e. recvStep j i (recvStep i j e)) [i + 1..<n]) [0..<n] e)"

definition swapStep :: "nat \<Rightarrow> nat \<Rightarrow> ('v, 'm) Engine \<Rightarrow> ('v, 'm) Engine" where
  "swapStep i j e =
     (if i = j then e
      else
        let p = partitions e ! i
        in e\<lparr>partitions := (partitions e)
                [i := p\<lparr>inboxes := (inboxes p)(j := swapBuffers (inboxes p j))\<rparr>]\<rparr>)"

definition swapPhase :: "('v, 'm) Engine \<Rightarrow> ('v, 'm) Engine" where
  "swapPhase e =
     (let n = length (partitions e)
      in fold (\<lambda>i. fold (swapStep i) [0..<n]) [0..<n] e)"

definition superstep ::
  "(nat \<Rightarrow> nat list) \<Rightarrow> ('v \<Rightarrow> bool) \<Rightarrow> ('v \<Rightarrow> 'v) \<Rightarrow> ('v \<Rightarrow> 'm) \<Rightarrow> ('m \<Rightarrow> 'v)
     \<Rightarrow> ('v, 'm) Engine \<Rightarrow> ('v, 'm) Engine" where
  "superstep grid cond update pack unpack e =
     (let e1 = scatterPhase grid cond update unpack e;
          e2 = compactPhase grid e1;
          e3 = probePhase e2
      in if terminate e3 then e3
         else
           let e4 = expandPhase grid cond update pack e3;
               e5 = exchangePhase e4;
               e6 = swapPhase e5
           in e6\<lparr>supersteps := supersteps e6 + 1\<rparr>)"

text \<open>One turn of the loop of \<^verbatim>\<open>run\<close>: \<^verbatim>\<open>terminate = true; superstep(...)\<close>.\<close>

definition runStep ::
  "(nat \<Rightarrow> nat list) \<Rightarrow> ('v \<Rightarrow> bool) \<Rightarrow> ('v \<Rightarrow> 'v) \<Rightarrow> ('v \<Rightarrow> 'm) \<Rightarrow> ('m \<Rightarrow> 'v)
     \<Rightarrow> ('v, 'm) Engine \<Rightarrow> ('v, 'm) Engine" where
  "runStep grid cond update pack unpack e =
     superstep grid cond update pack unpack (e\<lparr>terminate := True\<rparr>)"

text \<open>The loop of \<^verbatim>\<open>run\<close> may go on for ever (a cycle whose vertices always satisfy
  \<^verbatim>\<open>cond\<close>): it is a partial function, and \<open>None\<close> is the run that does not return.\<close>

partial_function (option) runLoop ::
  "(nat \<Rightarrow> nat list) \<Rightarrow> ('v \<Rightarrow> bool) \<Rightarrow> ('v \<Rightarrow> 'v) \<Rightarrow> ('v \<Rightarrow> 'm) \<Rightarrow> ('m \<Rightarrow> 'v)
     \<Rightarrow> ('v, 'm) Engine \<Rightarrow> ('v, 'm) Engine option" where
  "runLoop grid cond update pack unpack e =
     (let e' = runStep grid cond update pack unpack e
      in if terminate e' then Some e' else runLoop grid cond update pack unpack e')"

definition run ::
  "(nat \<Rightarrow> nat list) \<Rightarrow> ('v \<Rightarrow> bool) \<Rightarrow> ('v \<Rightarrow> 'v) \<Rightarrow> ('v \<Rightarrow> 'm) \<Rightarrow> ('m \<Rightarrow> 'v)
     \<Rightarrow> ('v, 'm) Engine \<Rightarrow> ('v, 'm) Engine option" where
  "run grid cond update pack unpack e =
     runLoop grid cond update pack unpack (e\<lparr>supersteps := 0\<rparr>)"

section \<open>A small engine to run the definitions on\<close>

text \<open>
  Two partitions with integer vertex values and messages. Partition 0 holds one vertex
  (global id 0) with one edge, to local vertex 0 of partition 1. Partition 1 holds two
  vertices (global ids 1 and 2); its vertex 0 has one edge, to its own vertex 1, and its
  vertex 1 has none. Every message box has room for four messages. \<open>exSeeded\<close> is the
  engine after \<^verbatim>\<open>vertexFilter\<close> gave the value 7 to the vertex of global id 0 (vertex 0
  of partition 0) and marked it in the workset.
\<close>

definition exBox :: "int MessageBox" where
  "exBox = \<lparr>buffer = (\<lambda>_. \<lparr>receiverId = 0, value_msg = 0\<rparr>), length_mb = 0,
     bufferRecv = (\<lambda>_. \<lparr>receiverId = 0, value_msg = 0\<rparr>), lengthRecv = 0, maxLength = 4\<rparr>"

definition exP0 :: "(int, int) Partition" where
  "exP0 = \<lparr>partitionId_P = 0, vertexCount = 1, globalIds = (\<lambda>_. 0),
     vertices = (\<lambda>u. if u = 0 then 0 else 1),
     edges = (\<lambda>_. \<lparr>partitionId = 1, localId = 0\<rparr>),
     vertexValues = (\<lambda>_. 0), workset = (\<lambda>_. 0),
     workqueue = (\<lambda>_. 0), workqueueSize = 0,
     outboxes = (\<lambda>_. exBox), inboxes = (\<lambda>_. exBox)\<rparr>"

definition exP1 :: "(int, int) Partition" where
  "exP1 = \<lparr>partitionId_P = 1, vertexCount = 2, globalIds = (\<lambda>u. u + 1),
     vertices = (\<lambda>u. if u = 0 then 0 else 1),
     edges = (\<lambda>_. \<lparr>partitionId = 1, localId = 1\<rparr>),
     vertexValues = (\<lambda>_. 0), workset = (\<lambda>_. 0),
     workqueue = (\<lambda>_. 0), workqueueSize = 0,
     outboxes = (\<lambda>_. exBox), inboxes = (\<lambda>_. exBox)\<rparr>"

definition exEngine :: "(int, int) Engine" where
  "exEngine = \<lparr>supersteps = 0, terminate = False, partitions = [exP0, exP1], trace = []\<rparr>"

definition exSeeded :: "(int, int) Engine" where
  "exSeeded = exEngine\<lparr>partitions :=
     [exP0\<lparr>vertexValues := (vertexValues exP0)(0 := 7), workset := (workset exP0)(0 := 1)\<rparr>,
      exP1]\<rparr>"



text \<open>\<open>exLocal\<close> is the engine with vertex 0 of partition 1 marked in the workset (its
  edge is local). \<open>exDelivered\<close> is the engine with one message, for local vertex 0
  with payload 3, in the inbox of partition 1 from partition 0.\<close>

definition exLocal :: "(int, int) Engine" where
  "exLocal = exEngine\<lparr>partitions := [exP0, exP1\<lparr>workset := (\<lambda>u. if u = 0 then 1 else 0)\<rparr>]\<rparr>"



text \<open>One turn of the run loop with the kernels of the examples (a vertex is updated
  while its value is below 10, the update adds 1, messages carry the value as it is),
  threads running in the order of their indices; and the messages a box holds, the
  entries of its buffer below its length.\<close>

definition exStep :: "(int, int) Engine \<Rightarrow> (int, int) Engine" where
  "exStep = runStep (upt 0) (\<lambda>v. v < 10) (\<lambda>v. v + 1) (\<lambda>v. v) (\<lambda>v. v)"

definition messages :: "'m MessageBox \<Rightarrow> 'm VertexMessage list" where
  "messages b = map (buffer b) [0..<length_mb b]"

section \<open>What the launches compute\<close>

text \<open>The partition after a launch of \<^verbatim>\<open>vertexFilterKernel\<close> over all its vertices, in
  closed form: the function the launch is compared with below.\<close>

definition filterAll :: "nat \<Rightarrow> ('v \<Rightarrow> 'v) \<Rightarrow> ('v, 'm) Partition \<Rightarrow> ('v, 'm) Partition" where
  "filterAll vid f p =
     p\<lparr>vertexValues := (\<lambda>u. if u < vertexCount p \<and> globalIds p u = vid
                              then f (vertexValues p u) else vertexValues p u),
       workset := (\<lambda>u. if u < vertexCount p \<and> globalIds p u = vid then 1 else workset p u)\<rparr>"

text \<open>What the scatter phase does to one partition: for one of its inboxes (a launch
  of \<^verbatim>\<open>scatterKernel\<close> over the messages of the inbox, unless it is empty), and for
  its inboxes \<open>0, \<dots>, n - 1\<close> in turn.\<close>

definition scatterInbox ::
  "(nat \<Rightarrow> nat list) \<Rightarrow> ('v \<Rightarrow> bool) \<Rightarrow> ('v \<Rightarrow> 'v) \<Rightarrow> ('m \<Rightarrow> 'v) \<Rightarrow> nat
     \<Rightarrow> ('v, 'm) Partition \<Rightarrow> ('v, 'm) Partition" where
  "scatterInbox grid cond update unpack j p =
     (if length_mb (inboxes p j) = 0 then p
      else launch (grid (length_mb (inboxes p j)))
             (scatterKernel (inboxes p j) cond update unpack) p)"

definition scatterAll ::
  "(nat \<Rightarrow> nat list) \<Rightarrow> ('v \<Rightarrow> bool) \<Rightarrow> ('v \<Rightarrow> 'v) \<Rightarrow> ('m \<Rightarrow> 'v) \<Rightarrow> nat
     \<Rightarrow> ('v, 'm) Partition \<Rightarrow> ('v, 'm) Partition" where
  "scatterAll grid cond update unpack n p =
     fold (scatterInbox grid cond update unpack) [0..<n] p"

text \<open>The events of the scatter phase: one launch for every non-empty inbox \<open>j\<close> of
  every partition \<open>i\<close>, in the order of the two loops.\<close>

definition scatterEvents :: "('v, 'm) Partition list \<Rightarrow> event list" where
  "scatterEvents ps =
     concat (map (\<lambda>i. map (ScatterLaunch i)
                          (filter (\<lambda>j. length_mb (inboxes (ps ! i) j) \<noteq> 0) [0..<length ps]))
                 [0..<length ps])"

text \<open>The compaction of one partition: the reset of \<open>workqueueSize\<close> and the launch.\<close>

definition compactAll :: "(nat \<Rightarrow> nat list) \<Rightarrow> ('v, 'm) Partition \<Rightarrow> ('v, 'm) Partition" where
  "compactAll grid p =
     launch (grid (vertexCount p)) (compactKernel (vertexCount p)) (p\<lparr>workqueueSize := 0\<rparr>)"

section \<open>Loops over the partitions\<close>

lemma admissible_upt: "admissible (upt 0)"
  by (auto simp: admissible_def)

lemma admissibleD:
  assumes "admissible grid"
  shows "distinct (grid n)" and "u < n \<Longrightarrow> u \<in> set (grid n)"
  using assms by (auto simp: admissible_def)

text \<open>A loop whose turn \<open>i\<close> replaces partition \<open>i\<close> by a function of that partition
  alone does this to every partition.\<close>

lemma fold_steps_partitions_upto:
  assumes "\<And>i e. length (partitions e) = n \<Longrightarrow>
             partitions (step i e) = (partitions e)[i := G i (partitions e ! i)]"
    and "length (partitions e) = n"
  shows "partitions (fold step [0..<k] e) =
         map (\<lambda>i. if i < k then G i (partitions e ! i) else partitions e ! i) [0..<n]"
proof (induction k)
  case 0
  show ?case using map_nth[of "partitions e"] assms(2) by simp
next
  case (Suc k)
  let ?e = "fold step [0..<k] e"
  have len: "length (partitions ?e) = n"
    using Suc by simp
  have "partitions (fold step [0..<Suc k] e) = (partitions ?e)[k := G k (partitions ?e ! k)]"
    using assms(1)[OF len] by simp
  also have "\<dots> =
      map (\<lambda>i. if i < Suc k then G i (partitions e ! i) else partitions e ! i) [0..<n]"
  proof (rule nth_equalityI)
    show "length ((partitions ?e)[k := G k (partitions ?e ! k)]) =
          length (map (\<lambda>i. if i < Suc k then G i (partitions e ! i) else partitions e ! i)
                      [0..<n])"
      using len by simp
  next
    fix i assume "i < length ((partitions ?e)[k := G k (partitions ?e ! k)])"
    then have i: "i < n" using len by simp
    show "(partitions ?e)[k := G k (partitions ?e ! k)] ! i =
          map (\<lambda>i. if i < Suc k then G i (partitions e ! i) else partitions e ! i) [0..<n] ! i"
      using i len by (cases "i = k") (simp_all add: Suc nth_list_update less_Suc_eq)
  qed
  finally show ?case .
qed

lemma map_nth_upt: "map (\<lambda>i. F (xs ! i)) [0..<length xs] = map F xs"
  by (rule nth_equalityI) simp_all

lemma fold_steps_partitions:
  assumes "\<And>i e. length (partitions e) = n \<Longrightarrow>
             partitions (step i e) = (partitions e)[i := G i (partitions e ! i)]"
    and "length (partitions e) = n"
  shows "partitions (fold step [0..<n] e) = map (\<lambda>i. G i (partitions e ! i)) [0..<n]"
proof -
  have "partitions (fold step [0..<n] e) =
        map (\<lambda>i. if i < n then G i (partitions e ! i) else partitions e ! i) [0..<n]"
    by (rule fold_steps_partitions_upto[where G = G and step = step and n = n and k = n
          and e = e, OF assms])
  also have "\<dots> = map (\<lambda>i. G i (partitions e ! i)) [0..<n]"
    by (rule nth_equalityI) simp_all
  finally show ?thesis .
qed

section \<open>vertexMap\<close>

lemma vertexMapKernel_launch:
  "distinct ts \<Longrightarrow>
   launch ts (vertexMapKernel n f) p =
     p\<lparr>vertexValues := (\<lambda>u. if u \<in> set ts \<and> u < n then f (vertexValues p u)
                              else vertexValues p u)\<rparr>"
  unfolding launch_def
proof (induction ts arbitrary: p)
  case Nil
  show ?case by simp
next
  case (Cons t ts)
  then show ?case
    by (intro Partition.equality) (auto simp: vertexMapKernel_def fun_eq_iff)
qed

lemma vertexMapKernel_grid:
  assumes "admissible grid"
  shows "launch (grid n) (vertexMapKernel n f) p =
     p\<lparr>vertexValues := (\<lambda>u. if u < n then f (vertexValues p u) else vertexValues p u)\<rparr>"
  unfolding vertexMapKernel_launch[OF admissibleD(1)[OF assms]]
  using admissibleD(2)[OF assms, of _ n]
  by (intro Partition.equality) (auto simp: fun_eq_iff)

lemma vertexMapStep_partitions:
  assumes "admissible grid"
  shows "partitions (vertexMapStep grid f i e) =
     (partitions e)[i := (\<lambda>i p. p\<lparr>vertexValues :=
         (\<lambda>u. if u < vertexCount p then f (vertexValues p u) else vertexValues p u)\<rparr>)
       i (partitions e ! i)]"
  by (simp add: vertexMapStep_def Let_def vertexMapKernel_grid[OF assms])

lemma vertexMap_partitions:
  assumes "admissible grid"
  shows "partitions (vertexMap grid f e) =
     map (\<lambda>p. p\<lparr>vertexValues :=
         (\<lambda>u. if u < vertexCount p then f (vertexValues p u) else vertexValues p u)\<rparr>)
       (partitions e)"
proof -
  let ?G = "\<lambda>p :: ('a, 'b) Partition. p\<lparr>vertexValues :=
         (\<lambda>u. if u < vertexCount p then f (vertexValues p u) else vertexValues p u)\<rparr>"
  have "partitions (vertexMap grid f e) =
        map (\<lambda>i. ?G (partitions e ! i)) [0..<length (partitions e)]"
    unfolding vertexMap_def
    by (rule fold_steps_partitions[where step = "vertexMapStep grid f" and e = e
        and n = "length (partitions e)" and G = "\<lambda>i. ?G",
        OF vertexMapStep_partitions[OF assms] refl])
  then show ?thesis
    by (simp only: map_nth_upt[where F = ?G])
qed

text \<open>
  Claim C10. \<^verbatim>\<open>vertexMap(f)\<close> writes only \<open>vertexValues\<close>: in every partition, every
  local vertex \<open>u\<close> gets \<open>f (vertexValues u)\<close>, and the partition is otherwise the one
  before the call. In particular its workset, workqueue, workqueueSize, inboxes and
  outboxes (lengths and buffers) are unchanged, so no vertex is activated and no work
  is produced for the next superstep.
\<close>

theorem vertexMap_writes_only_vertexValues:
  assumes "admissible grid" and "i < length (partitions e)"
  shows "length (partitions (vertexMap grid f e)) = length (partitions e) \<and>
    (let p = partitions e ! i; p' = partitions (vertexMap grid f e) ! i
     in p' = p\<lparr>vertexValues := (\<lambda>u. if u < vertexCount p then f (vertexValues p u)
                                      else vertexValues p u)\<rparr> \<and>
        workset p' = workset p \<and> workqueue p' = workqueue p \<and>
        workqueueSize p' = workqueueSize p \<and>
        inboxes p' = inboxes p \<and> outboxes p' = outboxes p)"
  using assms(2) by (simp add: vertexMap_partitions[OF assms(1)] Let_def)

theorem vertexMap_writes_only_vertexValues_witness:
  "admissible (upt 0) \<and> 1 < length (partitions exSeeded) \<and>
   vertexValues (partitions (vertexMap (upt 0) (\<lambda>v. v + 5) exSeeded) ! 1) 1 = 5 \<and>
   workset (partitions (vertexMap (upt 0) (\<lambda>v. v + 5) exSeeded) ! 1) = workset exP1 \<and>
   outboxes (partitions (vertexMap (upt 0) (\<lambda>v. v + 5) exSeeded) ! 1) = outboxes exP1"
proof -
  have l: "1 < length (partitions exSeeded)"
    by (simp add: exSeeded_def exEngine_def)
  show ?thesis
    using l vertexMap_writes_only_vertexValues[OF admissible_upt l, of "\<lambda>v. v + 5"]
    by (simp add: admissible_upt Let_def exSeeded_def exEngine_def exP1_def)
qed

section \<open>vertexFilter\<close>

lemma vertexFilterKernel_launch:
  "distinct ts \<Longrightarrow>
   launch ts (vertexFilterKernel n vid f) p =
     p\<lparr>vertexValues := (\<lambda>u. if u \<in> set ts \<and> u < n \<and> globalIds p u = vid
                              then f (vertexValues p u) else vertexValues p u),
       workset := (\<lambda>u. if u \<in> set ts \<and> u < n \<and> globalIds p u = vid then 1 else workset p u)\<rparr>"
  unfolding launch_def
proof (induction ts arbitrary: p)
  case Nil
  show ?case by simp
next
  case (Cons t ts)
  then show ?case
    by (intro Partition.equality) (auto simp: vertexFilterKernel_def fun_eq_iff)
qed

lemma vertexFilterKernel_grid:
  assumes "admissible grid"
  shows "launch (grid (vertexCount p)) (vertexFilterKernel (vertexCount p) vid f) p = filterAll vid f p"
  unfolding vertexFilterKernel_launch[OF admissibleD(1)[OF assms]] filterAll_def
  using admissibleD(2)[OF assms, of _ "vertexCount p"]
  by (intro Partition.equality) (auto simp: fun_eq_iff)

lemma vertexFilterStep_partitions:
  assumes "admissible grid"
  shows "partitions (vertexFilterStep grid vid f i e) =
     (partitions e)[i := (\<lambda>i. filterAll vid f) i (partitions e ! i)]"
  by (simp add: vertexFilterStep_def Let_def vertexFilterKernel_grid[OF assms])

lemma vertexFilter_partitions:
  assumes "admissible grid"
  shows "partitions (vertexFilter grid vid f e) = map (filterAll vid f) (partitions e)"
proof -
  have "partitions (vertexFilter grid vid f e) =
        map (\<lambda>i. filterAll vid f (partitions e ! i)) [0..<length (partitions e)]"
    unfolding vertexFilter_def
    by (rule fold_steps_partitions[where step = "vertexFilterStep grid vid f" and e = e
        and n = "length (partitions e)" and G = "\<lambda>i. filterAll vid f",
        OF vertexFilterStep_partitions[OF assms] refl])
  then show ?thesis
    by (simp only: map_nth_upt[where F = "filterAll vid f"])
qed

lemma filterAll_absent:
  "\<forall>u < vertexCount p. globalIds p u \<noteq> vid \<Longrightarrow> filterAll vid f p = p"
  by (intro Partition.equality) (auto simp: filterAll_def fun_eq_iff)

lemma filterAll_single:
  assumes "u < vertexCount p" and "globalIds p u = vid"
    and "\<forall>w < vertexCount p. globalIds p w = vid \<longrightarrow> w = u"
  shows "filterAll vid f p = p\<lparr>vertexValues := (vertexValues p)(u := f (vertexValues p u)),
                          workset := (workset p)(u := 1)\<rparr>"
proof -
  have c: "\<And>w. (w < vertexCount p \<and> globalIds p w = vid) = (w = u)"
    using assms by blast
  show ?thesis
    unfolding filterAll_def
    by (intro Partition.equality) (simp_all add: c fun_eq_iff)
qed

text \<open>
  Claim C9. If \<open>vid\<close> occurs in no partition's \<open>globalIds\<close> (among the local
  vertices), \<^verbatim>\<open>vertexFilter(vid, f)\<close> leaves every partition as it was: vertex values
  and workset are unchanged, so a workset that was all zero stays all zero. If \<open>vid\<close>
  occurs in exactly one slot \<open>u\<close> of one partition \<open>i\<close>, the call applies \<open>f\<close> to
  \<open>vertexValues[u]\<close> of that partition, sets its \<open>workset[u]\<close> to 1, and changes no
  other slot of any partition.
\<close>

theorem vertexFilter_frame:
  assumes "admissible grid"
  shows "((\<forall>k < length (partitions e). \<forall>w < vertexCount (partitions e ! k).
             globalIds (partitions e ! k) w \<noteq> vid) \<longrightarrow>
          partitions (vertexFilter grid vid f e) = partitions e) \<and>
         (i < length (partitions e) \<and> u < vertexCount (partitions e ! i) \<and>
          (\<forall>k < length (partitions e). \<forall>w < vertexCount (partitions e ! k).
             globalIds (partitions e ! k) w = vid \<longleftrightarrow> k = i \<and> w = u) \<longrightarrow>
          partitions (vertexFilter grid vid f e) =
            (partitions e)[i := (partitions e ! i)
               \<lparr>vertexValues := (vertexValues (partitions e ! i))
                                  (u := f (vertexValues (partitions e ! i) u)),
                workset := (workset (partitions e ! i))(u := 1)\<rparr>])"
proof (intro conjI impI)
  assume a: "\<forall>k < length (partitions e). \<forall>w < vertexCount (partitions e ! k).
             globalIds (partitions e ! k) w \<noteq> vid"
  have "map (filterAll vid f) (partitions e) = map (\<lambda>p. p) (partitions e)"
  proof (rule map_cong[OF refl])
    fix p assume "p \<in> set (partitions e)"
    then obtain k where "k < length (partitions e)" and "p = partitions e ! k"
      by (auto simp: in_set_conv_nth)
    with a have "\<forall>w < vertexCount p. globalIds p w \<noteq> vid" by blast
    then show "filterAll vid f p = p" by (rule filterAll_absent)
  qed
  then show "partitions (vertexFilter grid vid f e) = partitions e"
    unfolding vertexFilter_partitions[OF assms] by simp
next
  let ?q = "(partitions e ! i)
               \<lparr>vertexValues := (vertexValues (partitions e ! i))
                                  (u := f (vertexValues (partitions e ! i) u)),
                workset := (workset (partitions e ! i))(u := 1)\<rparr>"
  assume h: "i < length (partitions e) \<and> u < vertexCount (partitions e ! i) \<and>
          (\<forall>k < length (partitions e). \<forall>w < vertexCount (partitions e ! k).
             globalIds (partitions e ! k) w = vid \<longleftrightarrow> k = i \<and> w = u)"
  have "map (filterAll vid f) (partitions e) = (partitions e)[i := ?q]"
  proof (rule nth_equalityI)
    show "length (map (filterAll vid f) (partitions e)) = length ((partitions e)[i := ?q])"
      by simp
  next
    fix k assume "k < length (map (filterAll vid f) (partitions e))"
    then have k: "k < length (partitions e)" by simp
    show "map (filterAll vid f) (partitions e) ! k = (partitions e)[i := ?q] ! k"
    proof (cases "k = i")
      case True
      have "filterAll vid f (partitions e ! i) = ?q"
        using h by (intro filterAll_single) blast+
      then show ?thesis using True k by simp
    next
      case False
      have "\<forall>w < vertexCount (partitions e ! k). globalIds (partitions e ! k) w \<noteq> vid"
        using h k False by blast
      then have "filterAll vid f (partitions e ! k) = partitions e ! k"
        by (rule filterAll_absent)
      then show ?thesis using False k by simp
    qed
  qed
  then show "partitions (vertexFilter grid vid f e) = (partitions e)[i := ?q]"
    unfolding vertexFilter_partitions[OF assms] .
qed


theorem vertexFilter_frame_witness:
  "admissible (upt 0) \<and>
   partitions (vertexFilter (upt 0) 7 (\<lambda>v. v + 5) exEngine) = partitions exEngine \<and>
   1 < length (partitions exEngine) \<and> 1 < vertexCount (partitions exEngine ! 1) \<and>
   globalIds (partitions exEngine ! 1) 1 = 2 \<and>
   partitions (vertexFilter (upt 0) 2 (\<lambda>v. v + 5) exEngine) =
     [exP0, exP1\<lparr>vertexValues := (vertexValues exP1)(1 := 5),
                 workset := (workset exP1)(1 := 1)\<rparr>]"
proof -
  have ps: "partitions exEngine = [exP0, exP1]"
    by (simp add: exEngine_def)
  have two: "\<And>k::nat. k < 2 \<Longrightarrow> k = 0 \<or> k = 1"
    by arith
  have a: "\<forall>k < length (partitions exEngine). \<forall>w < vertexCount (partitions exEngine ! k).
             globalIds (partitions exEngine ! k) w \<noteq> 7"
  proof (intro allI impI)
    fix k w assume "k < length (partitions exEngine)"
      and w: "w < vertexCount (partitions exEngine ! k)"
    then have "k = 0 \<or> k = 1" using two by (simp add: ps)
    then show "globalIds (partitions exEngine ! k) w \<noteq> 7"
      using w by (auto simp: ps exP0_def exP1_def)
  qed
  have b: "1 < length (partitions exEngine) \<and> 1 < vertexCount (partitions exEngine ! 1) \<and>
    (\<forall>k < length (partitions exEngine). \<forall>w < vertexCount (partitions exEngine ! k).
             globalIds (partitions exEngine ! k) w = 2 \<longleftrightarrow> k = 1 \<and> w = 1)"
  proof (intro conjI allI impI)
    show "1 < length (partitions exEngine)" by (simp add: ps)
    show "1 < vertexCount (partitions exEngine ! 1)" by (simp add: ps exP1_def)
  next
    fix k w assume "k < length (partitions exEngine)"
      and w: "w < vertexCount (partitions exEngine ! k)"
    then have "k = 0 \<or> k = 1" using two by (simp add: ps)
    then show "globalIds (partitions exEngine ! k) w = 2 \<longleftrightarrow> k = 1 \<and> w = 1"
      using w by (auto simp: ps exP0_def exP1_def)
  qed
  have x: "partitions (vertexFilter (upt 0) 7 (\<lambda>v. v + 5) exEngine) = partitions exEngine"
    using vertexFilter_frame[OF admissible_upt, of exEngine 7 "\<lambda>v. v + 5" 0 0] a by blast
  have "partitions (vertexFilter (upt 0) 2 (\<lambda>v. v + 5) exEngine) =
      (partitions exEngine)[1 := (partitions exEngine ! 1)
               \<lparr>vertexValues := (vertexValues (partitions exEngine ! 1))
                                  (1 := vertexValues (partitions exEngine ! 1) 1 + 5),
                workset := (workset (partitions exEngine ! 1))(1 := 1)\<rparr>]"
    using vertexFilter_frame[OF admissible_upt, of exEngine 2 "\<lambda>v. v + 5" 1 1] b by blast
  then have y: "partitions (vertexFilter (upt 0) 2 (\<lambda>v. v + 5) exEngine) =
     [exP0, exP1\<lparr>vertexValues := (vertexValues exP1)(1 := 5),
                 workset := (workset exP1)(1 := 1)\<rparr>]"
    by (simp add: ps exP1_def)
  have g: "globalIds (partitions exEngine ! 1) 1 = 2"
    by (simp add: ps exP1_def)
  show ?thesis
    by (intro conjI admissible_upt x y g b[THEN conjunct1] b[THEN conjunct2, THEN conjunct1])
qed

section \<open>gather\<close>

lemma fold_nth_upt: "fold (\<lambda>i. F (xs ! i)) [0..<length xs] = fold F xs"
proof -
  have "fold (\<lambda>i. F (xs ! i)) [0..<length xs] = fold F (map (\<lambda>i. xs ! i) [0..<length xs])"
    by (simp add: fold_map comp_def)
  then show ?thesis by (simp add: map_nth)
qed

lemma fold_concat_lists: "fold f (concat xss) s = fold (fold f) xss s"
  by (induction xss arbitrary: s) simp_all

lemma fold_snoc_record: "fold (\<lambda>(g, v) cs. cs @ [(g, v)]) xs ys = ys @ xs"
  by (induction xs arbitrary: ys) (simp_all add: case_prod_beta)

lemma distinct_count_filter:
  "distinct xs \<Longrightarrow> length (filter (\<lambda>x. x = g) xs) = (if g \<in> set xs then 1 else 0)"
  by (induction xs) auto

lemma gather_fold_calls:
  "gather updateAt e s =
     fold (\<lambda>(g, v). updateAt g v)
       (concat (map (\<lambda>p. map (\<lambda>j. (globalIds p j, vertexValues p j)) [0..<vertexCount p])
                    (partitions e))) s"
proof -
  let ?F = "\<lambda>p. fold (\<lambda>j. updateAt (globalIds p j) (vertexValues p j)) [0..<vertexCount p]"
  have "gather updateAt e s = fold (\<lambda>i. ?F (partitions e ! i)) [0..<length (partitions e)] s"
    by (simp add: gather_def)
  also have "\<dots> = fold ?F (partitions e) s"
    by (simp only: fold_nth_upt[where F = ?F])
  also have "\<dots> = fold (\<lambda>(g, v). updateAt g v)
       (concat (map (\<lambda>p. map (\<lambda>j. (globalIds p j, vertexValues p j)) [0..<vertexCount p])
                    (partitions e))) s"
    by (simp add: fold_concat_lists fold_map comp_def)
  finally show ?thesis .
qed

text \<open>
  Claim C8. \<^verbatim>\<open>gather(callback)\<close> calls \<open>callback (globalIds[j]) (vertexValues[j])\<close> for
  every local index \<open>j\<close> of every partition, partitions in order and local indices in
  order within a partition: it is the fold of the callback over that list of calls,
  and a callback that records its arguments records exactly that list. When the
  partitions' \<open>globalIds\<close> sequences form a partition of the vertex set \<open>V\<close> (together
  they are free of repetitions and cover \<open>V\<close>), the callback is called exactly once for
  every global id in \<open>V\<close>, and for no other id.
\<close>

theorem gather_visits:
  "gather updateAt e s =
     fold (\<lambda>(g, v). updateAt g v)
       (concat (map (\<lambda>p. map (\<lambda>j. (globalIds p j, vertexValues p j)) [0..<vertexCount p])
                    (partitions e))) s \<and>
   gather (\<lambda>g v cs. cs @ [(g, v)]) e [] =
     concat (map (\<lambda>p. map (\<lambda>j. (globalIds p j, vertexValues p j)) [0..<vertexCount p])
                 (partitions e)) \<and>
   (distinct (concat (map (\<lambda>p. map (globalIds p) [0..<vertexCount p]) (partitions e))) \<and>
    set (concat (map (\<lambda>p. map (globalIds p) [0..<vertexCount p]) (partitions e))) = V \<longrightarrow>
    (\<forall>g. length (filter (\<lambda>c. fst c = g) (gather (\<lambda>g v cs. cs @ [(g, v)]) e [])) =
          (if g \<in> V then 1 else 0)))"
proof (intro conjI impI allI)
  let ?calls = "concat (map (\<lambda>p. map (\<lambda>j. (globalIds p j, vertexValues p j))
                   [0..<vertexCount p]) (partitions e))"
  let ?ids = "concat (map (\<lambda>p. map (globalIds p) [0..<vertexCount p]) (partitions e))"
  show "gather updateAt e s = fold (\<lambda>(g, v). updateAt g v) ?calls s"
    by (rule gather_fold_calls)
  have r: "gather (\<lambda>g v cs. cs @ [(g, v)]) e [] = ?calls"
    by (simp only: gather_fold_calls fold_snoc_record append_Nil)
  show "gather (\<lambda>g v cs. cs @ [(g, v)]) e [] = ?calls" by (rule r)
  fix g
  assume h: "distinct ?ids \<and> set ?ids = V"
  have m: "map fst ?calls = ?ids"
    by (simp add: map_concat comp_def)
  have "length (filter (\<lambda>c. fst c = g) ?calls) = length (filter (\<lambda>x. x = g) (map fst ?calls))"
    by (simp add: filter_map comp_def)
  also have "\<dots> = (if g \<in> V then 1 else 0)"
    unfolding m using h distinct_count_filter[of ?ids g] by simp
  finally show "length (filter (\<lambda>c. fst c = g) (gather (\<lambda>g v cs. cs @ [(g, v)]) e [])) =
          (if g \<in> V then 1 else 0)"
    unfolding r .
qed

theorem gather_visits_witness:
  "distinct (concat (map (\<lambda>p. map (globalIds p) [0..<vertexCount p]) (partitions exEngine))) \<and>
   set (concat (map (\<lambda>p. map (globalIds p) [0..<vertexCount p]) (partitions exEngine))) = {0, 1, 2} \<and>
   gather (\<lambda>g v cs. cs @ [(g, v)]) exEngine [] = [(0, 0), (1, 0), (2, 0)] \<and>
   length (filter (\<lambda>c. fst c = 2) (gather (\<lambda>g v cs. cs @ [(g, v)]) exEngine [])) = 1 \<and>
   length (filter (\<lambda>c. fst c = 3) (gather (\<lambda>g v cs. cs @ [(g, v)]) exEngine [])) = 0"
proof -
  have ids: "concat (map (\<lambda>p. map (globalIds p) [0..<vertexCount p]) (partitions exEngine)) = [0, 1, 2]"
    by (simp add: exEngine_def exP0_def exP1_def upt_rec)
  have calls: "concat (map (\<lambda>p. map (\<lambda>j. (globalIds p j, vertexValues p j)) [0..<vertexCount p])
                 (partitions exEngine)) = [(0, 0), (1, 0), (2, 0)]"
    by (simp add: exEngine_def exP0_def exP1_def upt_rec)
  have h: "distinct (concat (map (\<lambda>p. map (globalIds p) [0..<vertexCount p]) (partitions exEngine))) \<and>
   set (concat (map (\<lambda>p. map (globalIds p) [0..<vertexCount p]) (partitions exEngine))) = {0, 1, 2}"
    unfolding ids by simp
  note t = gather_visits[of "\<lambda>g v cs. cs @ [(g, v)]" exEngine "[]" "{0, 1, 2}"]
  have c: "\<forall>g. length (filter (\<lambda>c. fst c = g) (gather (\<lambda>g v cs. cs @ [(g, v)]) exEngine [])) =
          (if g \<in> {0, 1, 2} then 1 else 0)"
    using t h by blast
  have g: "gather (\<lambda>g v cs. cs @ [(g, v)]) exEngine [] = [(0, 0), (1, 0), (2, 0)]"
    using t calls by simp
  show ?thesis
    using h g c[THEN spec, of 2] c[THEN spec, of 3] by simp
qed

section \<open>Compaction\<close>

lemma compactKernel_launch:
  "distinct ts \<Longrightarrow>
   launch ts (compactKernel n) p =
     p\<lparr>workset := (\<lambda>u. if u \<in> set ts \<and> u < n \<and> workset p u = 1 then 0 else workset p u),
       workqueueSize := workqueueSize p + length (filter (\<lambda>t. t < n \<and> workset p t = 1) ts),
       workqueue := (\<lambda>k. if workqueueSize p \<le> k \<and>
                             k < workqueueSize p + length (filter (\<lambda>t. t < n \<and> workset p t = 1) ts)
                          then filter (\<lambda>t. t < n \<and> workset p t = 1) ts ! (k - workqueueSize p)
                          else workqueue p k)\<rparr>"
  unfolding launch_def
proof (induction ts arbitrary: p)
  case Nil
  show ?case by (intro Partition.equality) (auto simp: fun_eq_iff)
next
  case (Cons t ts)
  have d: "distinct ts" and t: "t \<notin> set ts" using Cons.prems by simp_all
  have step: "fold (compactKernel n) (t # ts) p = fold (compactKernel n) ts (compactKernel n t p)"
    by simp
  show ?case
  proof (cases "t < n \<and> workset p t = 1")
    case False
    then have k: "compactKernel n t p = p" by (auto simp: compactKernel_def)
    have f: "filter (\<lambda>u. u < n \<and> workset p u = 1) (t # ts) =
             filter (\<lambda>u. u < n \<and> workset p u = 1) ts"
      using False by simp
    show ?thesis
      unfolding step k Cons.IH[OF d] f
      using False by (intro Partition.equality) (auto simp: fun_eq_iff)
  next
    case True
    let ?p1 = "p\<lparr>workset := (workset p)(t := 0), workqueueSize := workqueueSize p + 1,
                  workqueue := (workqueue p)(workqueueSize p := t)\<rparr>"
    have k: "compactKernel n t p = ?p1" using True by (simp add: compactKernel_def Let_def)
    have f: "filter (\<lambda>u. u < n \<and> workset ?p1 u = 1) ts = filter (\<lambda>u. u < n \<and> workset p u = 1) ts"
      using t by (intro filter_cong) auto
    have g: "filter (\<lambda>u. u < n \<and> workset p u = 1) (t # ts) =
             t # filter (\<lambda>u. u < n \<and> workset p u = 1) ts"
      using True by simp
    show ?thesis
      unfolding step k Cons.IH[OF d] f g
      using True t
      by (intro Partition.equality) (auto simp: fun_eq_iff nth_Cons')
  qed
qed

lemma compactStep_partitions:
  "partitions (compactStep grid i e) =
     (partitions e)[i := (\<lambda>i p. launch (grid (vertexCount p)) (compactKernel (vertexCount p))
                                   (p\<lparr>workqueueSize := 0\<rparr>)) i (partitions e ! i)]"
  by (simp add: compactStep_def Let_def)

lemma compactPhase_partitions:
  "partitions (compactPhase grid e) =
     map (\<lambda>p. launch (grid (vertexCount p)) (compactKernel (vertexCount p))
                 (p\<lparr>workqueueSize := 0\<rparr>)) (partitions e)"
proof -
  let ?G = "\<lambda>p :: ('a, 'b) Partition.
       launch (grid (vertexCount p)) (compactKernel (vertexCount p)) (p\<lparr>workqueueSize := 0\<rparr>)"
  have "partitions (compactPhase grid e) =
        map (\<lambda>i. ?G (partitions e ! i)) [0..<length (partitions e)]"
    unfolding compactPhase_def
    by (rule fold_steps_partitions[where step = "compactStep grid" and e = e
        and n = "length (partitions e)" and G = "\<lambda>i. ?G",
        OF compactStep_partitions refl])
  then show ?thesis
    by (simp only: map_nth_upt[where F = ?G])
qed

lemma compact_partition:
  fixes p :: "('v, 'm) Partition"
  assumes "admissible grid"
  defines "n \<equiv> vertexCount p"
  defines "p' \<equiv> launch (grid n) (compactKernel n) (p\<lparr>workqueueSize := 0\<rparr>)"
  shows "workqueueSize p' = card {u. u < n \<and> workset p u = 1}"
    and "workqueue p' ` {..<workqueueSize p'} = {u. u < n \<and> workset p u = 1}"
    and "inj_on (workqueue p') {..<workqueueSize p'}"
    and "\<forall>u < n. workset p u = 0 \<or> workset p u = 1 \<Longrightarrow> \<forall>u < n. workset p' u = 0"
    and "vertexValues p' = vertexValues p" and "vertexCount p' = vertexCount p"
    and "inboxes p' = inboxes p" and "outboxes p' = outboxes p"
proof -
  let ?A = "filter (\<lambda>t. t < n \<and> workset p t = 1) (grid n)"
  have d: "distinct (grid n)" and c: "\<And>u. u < n \<Longrightarrow> u \<in> set (grid n)"
    using admissibleD[OF assms(1)] by blast+
  have sz: "workqueueSize p' = length ?A"
    and wq: "\<And>k. k < length ?A \<Longrightarrow> workqueue p' k = ?A ! k"
    and ws: "\<And>u. workset p' u = (if u \<in> set (grid n) \<and> u < n \<and> workset p u = 1 then 0
                                  else workset p u)"
    and others: "vertexValues p' = vertexValues p" "vertexCount p' = vertexCount p"
       "inboxes p' = inboxes p" "outboxes p' = outboxes p"
    unfolding p'_def compactKernel_launch[OF d] by simp_all
  have dA: "distinct ?A" using d by simp
  have sA: "set ?A = {u. u < n \<and> workset p u = 1}" using c by auto
  show "workqueueSize p' = card {u. u < n \<and> workset p u = 1}"
    unfolding sz sA[symmetric] using distinct_card[OF dA] by simp
  have "workqueue p' ` {..<length ?A} = set ?A"
  proof -
    have "workqueue p' ` {..<length ?A} = (\<lambda>k. ?A ! k) ` {..<length ?A}"
      by (rule image_cong) (simp_all add: wq)
    also have "\<dots> = set ?A"
      by (auto simp: set_conv_nth)
    finally show ?thesis .
  qed
  then show "workqueue p' ` {..<workqueueSize p'} = {u. u < n \<and> workset p u = 1}"
    unfolding sz sA .
  show "inj_on (workqueue p') {..<workqueueSize p'}"
    unfolding sz
  proof (rule inj_onI)
    fix a b assume "a \<in> {..<length ?A}" "b \<in> {..<length ?A}" "workqueue p' a = workqueue p' b"
    then have "a < length ?A" "b < length ?A" "?A ! a = ?A ! b" by (simp_all add: wq)
    then show "a = b" using dA by (simp add: nth_eq_iff_index_eq)
  qed
  show "\<forall>u < n. workset p u = 0 \<or> workset p u = 1 \<Longrightarrow> \<forall>u < n. workset p' u = 0"
    using c by (auto simp: ws)
  show "vertexValues p' = vertexValues p" "vertexCount p' = vertexCount p"
       "inboxes p' = inboxes p" "outboxes p' = outboxes p"
    by (rule others)+
qed

text \<open>
  Claim C6. After the compact phase (which resets \<open>workqueueSize\<close> to 0 and then
  launches the compaction kernel over \<open>vertexCount\<close> elements), in every partition:
  \<open>workqueueSize\<close> is the number of local vertices whose workset slot was 1 when
  compaction began; \<open>workqueue[0..workqueueSize)\<close> holds exactly those vertices, each
  once, in the order the grid ran them; and every workset slot is 0, the workset being
  the 0/1 flag array of the data model.
\<close>

theorem compactPhase_workqueue:
  assumes "admissible grid" and "i < length (partitions e)"
  shows "let p = partitions e ! i; p' = partitions (compactPhase grid e) ! i;
             active = {u. u < vertexCount p \<and> workset p u = 1}
         in workqueueSize p' = card active \<and>
            workqueue p' ` {..<workqueueSize p'} = active \<and>
            inj_on (workqueue p') {..<workqueueSize p'} \<and>
            ((\<forall>u < vertexCount p. workset p u = 0 \<or> workset p u = 1) \<longrightarrow>
             (\<forall>u < vertexCount p. workset p' u = 0))"
  unfolding Let_def compactPhase_partitions nth_map[OF assms(2)]
  using compact_partition(1-4)[OF assms(1), of "partitions e ! i"] by blast


theorem compactPhase_workqueue_witness:
  "admissible (upt 0) \<and> 0 < length (partitions exSeeded) \<and>
   workset (partitions exSeeded ! 0) 0 = 1 \<and>
   workqueueSize (partitions (compactPhase (upt 0) exSeeded) ! 0) = 1 \<and>
   workqueue (partitions (compactPhase (upt 0) exSeeded) ! 0) ` {..<1} = {0} \<and>
   workset (partitions (compactPhase (upt 0) exSeeded) ! 0) 0 = 0"
proof -
  have l: "0 < length (partitions exSeeded)"
    by (simp add: exSeeded_def exEngine_def)
  have act: "{u. u < vertexCount (partitions exSeeded ! 0) \<and>
                 workset (partitions exSeeded ! 0) u = 1} = {0}"
    by (auto simp: exSeeded_def exEngine_def exP0_def)
  have flags: "\<forall>u < vertexCount (partitions exSeeded ! 0).
       workset (partitions exSeeded ! 0) u = 0 \<or> workset (partitions exSeeded ! 0) u = 1"
    by (simp add: exSeeded_def exEngine_def exP0_def)
  note t = compactPhase_workqueue[OF admissible_upt l, unfolded Let_def act]
  have s: "workqueueSize (partitions (compactPhase (upt 0) exSeeded) ! 0) = 1"
    using t[THEN conjunct1] by simp
  have q: "workqueue (partitions (compactPhase (upt 0) exSeeded) ! 0) ` {..<1} = {0}"
    using t[THEN conjunct2, THEN conjunct1] unfolding s .
  have z: "\<forall>u < vertexCount (partitions exSeeded ! 0).
       workset (partitions (compactPhase (upt 0) exSeeded) ! 0) u = 0"
    using t[THEN conjunct2, THEN conjunct2, THEN conjunct2, THEN mp, OF flags] .
  have one: "workset (partitions exSeeded ! 0) 0 = 1"
    by (simp add: exSeeded_def exEngine_def exP0_def)
  have zero: "workset (partitions (compactPhase (upt 0) exSeeded) ! 0) 0 = 0"
    using z by (simp add: exSeeded_def exEngine_def exP0_def)
  show ?thesis
    by (intro conjI admissible_upt l one s q zero)
qed

section \<open>Expansion\<close>



lemmas engine_defs = superstep_def scatterPhase_def scatterStep_def compactPhase_def
  compactStep_def probePhase_def probeStep_def expandPhase_def expandStep_def clearOutboxes_def
  exchangePhase_def recvStep_def swapPhase_def swapStep_def launch_def scatterKernel_def
  compactKernel_def expandKernel_def expandEdge_def clear_def recvMsgs_def swapBuffers_def





section \<open>Loops over the partitions, with their events\<close>

lemma fold_steps_upto:
  assumes P: "\<And>i e. length (partitions e) = n \<Longrightarrow> i < n \<Longrightarrow>
             partitions (step i e) = (partitions e)[i := G i (partitions e ! i)]"
    and T: "\<And>i e. length (partitions e) = n \<Longrightarrow> i < n \<Longrightarrow>
             trace (step i e) = trace e @ T i (partitions e ! i)"
    and len: "length (partitions e) = n"
  shows "k \<le> n \<Longrightarrow>
         partitions (fold step [0..<k] e) =
           map (\<lambda>i. if i < k then G i (partitions e ! i) else partitions e ! i) [0..<n] \<and>
         trace (fold step [0..<k] e) =
           trace e @ concat (map (\<lambda>i. T i (partitions e ! i)) [0..<k])"
proof (induction k)
  case 0
  show ?case using map_nth[of "partitions e"] len by simp
next
  case (Suc k)
  let ?e = "fold step [0..<k] e"
  have k: "k < n" using Suc.prems by simp
  have ih: "partitions ?e =
           map (\<lambda>i. if i < k then G i (partitions e ! i) else partitions e ! i) [0..<n]"
     and iht: "trace ?e = trace e @ concat (map (\<lambda>i. T i (partitions e ! i)) [0..<k])"
    using Suc.IH k by simp_all
  have l: "length (partitions ?e) = n" using ih by simp
  have same: "partitions ?e ! k = partitions e ! k" using ih k by simp
  have f: "fold step [0..<Suc k] e = step k ?e" by simp
  have "partitions (step k ?e) =
        map (\<lambda>i. if i < Suc k then G i (partitions e ! i) else partitions e ! i) [0..<n]"
  proof (rule nth_equalityI)
    show "length (partitions (step k ?e)) =
          length (map (\<lambda>i. if i < Suc k then G i (partitions e ! i) else partitions e ! i) [0..<n])"
      using P[OF l k] l by simp
  next
    fix i assume "i < length (partitions (step k ?e))"
    then have i: "i < n" using P[OF l k] l by simp
    show "partitions (step k ?e) ! i =
          map (\<lambda>i. if i < Suc k then G i (partitions e ! i) else partitions e ! i) [0..<n] ! i"
      unfolding P[OF l k] same
      using i l k by (cases "i = k") (simp_all add: ih nth_list_update less_Suc_eq)
  qed
  moreover have "trace (step k ?e) =
        trace e @ concat (map (\<lambda>i. T i (partitions e ! i)) [0..<Suc k])"
    unfolding T[OF l k] same iht by simp
  ultimately show ?case unfolding f by simp
qed

lemma fold_steps:
  assumes P: "\<And>i e. length (partitions e) = n \<Longrightarrow> i < n \<Longrightarrow>
             partitions (step i e) = (partitions e)[i := G i (partitions e ! i)]"
    and T: "\<And>i e. length (partitions e) = n \<Longrightarrow> i < n \<Longrightarrow>
             trace (step i e) = trace e @ T i (partitions e ! i)"
    and len: "length (partitions e) = n"
  shows "partitions (fold step [0..<n] e) = map (\<lambda>i. G i (partitions e ! i)) [0..<n]"
    and "trace (fold step [0..<n] e) = trace e @ concat (map (\<lambda>i. T i (partitions e ! i)) [0..<n])"
proof -
  note t = fold_steps_upto[where step = step and G = G and T = T and n = n and e = e and k = n,
      OF P T len le_refl]
  have "partitions (fold step [0..<n] e) =
        map (\<lambda>i. if i < n then G i (partitions e ! i) else partitions e ! i) [0..<n]"
    using t by (rule conjunct1)
  also have "\<dots> = map (\<lambda>i. G i (partitions e ! i)) [0..<n]"
    by (rule nth_equalityI) simp_all
  finally show "partitions (fold step [0..<n] e) = map (\<lambda>i. G i (partitions e ! i)) [0..<n]" .
  show "trace (fold step [0..<n] e) = trace e @ concat (map (\<lambda>i. T i (partitions e ! i)) [0..<n])"
    using t by (rule conjunct2)
qed

lemma fold_keeps:
  assumes "\<And>i e. sel (step i e) = sel e"
  shows "sel (fold step xs e) = sel e"
  by (induction xs arbitrary: e) (simp_all add: assms)


section \<open>Scatter\<close>

lemma scatterKernel_frame:
  "inboxes (scatterKernel ib c u un tid p) = inboxes p"
  "outboxes (scatterKernel ib c u un tid p) = outboxes p"
  "vertexCount (scatterKernel ib c u un tid p) = vertexCount p"
  "workqueueSize (scatterKernel ib c u un tid p) = workqueueSize p"
  by (simp_all add: scatterKernel_def Let_def)

lemma scatterKernel_flags:
  "workset p x = 0 \<or> workset p x = 1 \<Longrightarrow>
   workset (scatterKernel ib c u un tid p) x = 0 \<or> workset (scatterKernel ib c u un tid p) x = 1"
  by (auto simp: scatterKernel_def Let_def)

lemma scatter_launch_frame:
  "inboxes (launch ts (scatterKernel ib c u un) p) = inboxes p"
  "vertexCount (launch ts (scatterKernel ib c u un) p) = vertexCount p"
  unfolding launch_def
  by (induction ts arbitrary: p) (simp_all add: scatterKernel_frame)

lemma scatter_launch_flags:
  "workset p x = 0 \<or> workset p x = 1 \<Longrightarrow>
   workset (launch ts (scatterKernel ib c u un) p) x = 0 \<or>
   workset (launch ts (scatterKernel ib c u un) p) x = 1"
  unfolding launch_def
proof (induction ts arbitrary: p)
  case Nil
  then show ?case by simp
next
  case (Cons t ts)
  show ?case
    using Cons.IH[OF scatterKernel_flags[OF Cons.prems]] by simp
qed

lemma scatterInbox_frame:
  "inboxes (scatterInbox grid c u un j p) = inboxes p"
  "vertexCount (scatterInbox grid c u un j p) = vertexCount p"
  by (simp_all add: scatterInbox_def scatter_launch_frame)

lemma scatterInbox_flags:
  "workset p x = 0 \<or> workset p x = 1 \<Longrightarrow>
   workset (scatterInbox grid c u un j p) x = 0 \<or> workset (scatterInbox grid c u un j p) x = 1"
  by (simp add: scatterInbox_def scatter_launch_flags)

lemma scatterInbox_fold_frame:
  "inboxes (fold (scatterInbox grid c u un) js p) = inboxes p"
  "vertexCount (fold (scatterInbox grid c u un) js p) = vertexCount p"
  by (induction js arbitrary: p) (simp_all add: scatterInbox_frame)

lemma scatterInbox_fold_flags:
  "workset p x = 0 \<or> workset p x = 1 \<Longrightarrow>
   workset (fold (scatterInbox grid c u un) js p) x = 0 \<or>
   workset (fold (scatterInbox grid c u un) js p) x = 1"
proof (induction js arbitrary: p)
  case Nil
  then show ?case by simp
next
  case (Cons j js)
  show ?case
    using Cons.IH[OF scatterInbox_flags[OF Cons.prems]] by simp
qed

lemma scatterStep_partitions:
  "partitions (scatterStep grid c u un i j e) =
     (partitions e)[i := scatterInbox grid c u un j (partitions e ! i)]"
  by (simp add: scatterStep_def scatterInbox_def Let_def)

lemma scatterStep_trace:
  "trace (scatterStep grid c u un i j e) =
     trace e @ (if length_mb (inboxes (partitions e ! i) j) \<noteq> 0 then [ScatterLaunch i j] else [])"
  by (simp add: scatterStep_def Let_def)

lemma scatterStep_fields:
  "terminate (scatterStep grid c u un i j e) = terminate e"
  "supersteps (scatterStep grid c u un i j e) = supersteps e"
  by (simp_all add: scatterStep_def Let_def)

lemma scatterSteps:
  assumes "i < length (partitions e)"
  shows "partitions (fold (scatterStep grid c u un i) js e) =
           (partitions e)[i := fold (scatterInbox grid c u un) js (partitions e ! i)] \<and>
         trace (fold (scatterStep grid c u un i) js e) =
           trace e @ map (ScatterLaunch i)
                       (filter (\<lambda>j. length_mb (inboxes (partitions e ! i) j) \<noteq> 0) js)"
  using assms
proof (induction js arbitrary: e)
  case Nil
  then show ?case by simp
next
  case (Cons j js)
  let ?e = "scatterStep grid c u un i j e"
  have l: "i < length (partitions ?e)"
    using Cons.prems by (simp add: scatterStep_partitions)
  have at: "partitions ?e ! i = scatterInbox grid c u un j (partitions e ! i)"
    using Cons.prems by (simp add: scatterStep_partitions)
  show ?case
    using Cons.IH[OF l] Cons.prems
    by (simp add: at scatterInbox_frame scatterStep_partitions scatterStep_trace)
qed

lemma scatterPhase_closed:
  "partitions (scatterPhase grid c u un e) =
     map (scatterAll grid c u un (length (partitions e))) (partitions e)"
  "trace (scatterPhase grid c u un e) = trace e @ scatterEvents (partitions e)"
proof -
  let ?n = "length (partitions e)"
  let ?step = "\<lambda>i. fold (scatterStep grid c u un i) [0..<?n]"
  let ?G = "\<lambda>i::nat. scatterAll grid c u un ?n"
  let ?T = "\<lambda>i p. map (ScatterLaunch i) (filter (\<lambda>j. length_mb (inboxes p j) \<noteq> 0) [0..<?n])"
  have P: "partitions (?step i ea) = (partitions ea)[i := ?G i (partitions ea ! i)]"
    if "length (partitions ea) = ?n" and "i < ?n" for i ea
  proof -
    have "i < length (partitions ea)" using that by simp
    from scatterSteps[OF this, THEN conjunct1] show ?thesis
      by (simp only: scatterAll_def)
  qed
  have T: "trace (?step i ea) = trace ea @ ?T i (partitions ea ! i)"
    if "length (partitions ea) = ?n" and "i < ?n" for i ea
  proof -
    have "i < length (partitions ea)" using that by simp
    from scatterSteps[OF this, THEN conjunct2] show ?thesis .
  qed
  note t = fold_steps[where step = ?step and G = ?G and T = ?T and n = ?n and e = e,
      OF P T refl]
  have "partitions (scatterPhase grid c u un e) =
        map (\<lambda>i. scatterAll grid c u un ?n (partitions e ! i)) [0..<?n]"
    using t(1) by (simp add: scatterPhase_def Let_def)
  then show "partitions (scatterPhase grid c u un e) =
     map (scatterAll grid c u un (length (partitions e))) (partitions e)"
    by (simp only: map_nth_upt[where F = "scatterAll grid c u un ?n"])
  show "trace (scatterPhase grid c u un e) = trace e @ scatterEvents (partitions e)"
    using t(2) by (simp add: scatterPhase_def Let_def scatterEvents_def)
qed

lemma scatterPhase_fields:
  "terminate (scatterPhase grid c u un e) = terminate e"
  "supersteps (scatterPhase grid c u un e) = supersteps e"
  unfolding scatterPhase_def Let_def
  by (rule fold_keeps, rule fold_keeps, rule scatterStep_fields)+


section \<open>Compaction and probe as phases\<close>

lemma compactStep_partitions':
  "partitions (compactStep grid i e) = (partitions e)[i := compactAll grid (partitions e ! i)]"
  by (simp add: compactStep_def compactAll_def Let_def)

lemma compactStep_trace:
  "trace (compactStep grid i e) = trace e @ [CompactLaunch i]"
  by (simp add: compactStep_def Let_def)

lemma compactStep_fields:
  "terminate (compactStep grid i e) = terminate e"
  "supersteps (compactStep grid i e) = supersteps e"
  by (simp_all add: compactStep_def Let_def)

lemma compactPhase_closed:
  "partitions (compactPhase grid e) = map (compactAll grid) (partitions e)"
  "trace (compactPhase grid e) = trace e @ map CompactLaunch [0..<length (partitions e)]"
proof -
  let ?n = "length (partitions e)"
  note t = fold_steps[where step = "compactStep grid" and G = "\<lambda>i. compactAll grid"
      and T = "\<lambda>i p. [CompactLaunch i]" and n = ?n and e = e,
      OF compactStep_partitions' compactStep_trace refl]
  have "partitions (compactPhase grid e) =
        map (\<lambda>i. compactAll grid (partitions e ! i)) [0..<?n]"
    using t(1) by (simp add: compactPhase_def)
  then show "partitions (compactPhase grid e) = map (compactAll grid) (partitions e)"
    by (simp only: map_nth_upt[where F = "compactAll grid"])
  have "concat (map (\<lambda>i. [CompactLaunch i]) [0..<?n]) = map CompactLaunch [0..<?n]"
    by (induction ?n) simp_all
  then show "trace (compactPhase grid e) = trace e @ map CompactLaunch [0..<?n]"
    using t(2) by (simp add: compactPhase_def)
qed

lemma compactPhase_fields:
  "terminate (compactPhase grid e) = terminate e"
  "supersteps (compactPhase grid e) = supersteps e"
  unfolding compactPhase_def
  by (rule fold_keeps, rule compactStep_fields)+

lemma probe_upto:
  "fold probeStep [0..<k] e =
     e\<lparr>terminate := terminate e \<and> (\<forall>i < k. workqueueSize (partitions e ! i) = 0)\<rparr>"
proof (induction k)
  case 0
  show ?case by simp
next
  case (Suc k)
  have "fold probeStep [0..<Suc k] e = probeStep k (fold probeStep [0..<k] e)"
    by simp
  also have "\<dots> = probeStep k
      (e\<lparr>terminate := terminate e \<and> (\<forall>i < k. workqueueSize (partitions e ! i) = 0)\<rparr>)"
    by (simp only: Suc)
  also have "\<dots> =
      e\<lparr>terminate := terminate e \<and> (\<forall>i < Suc k. workqueueSize (partitions e ! i) = 0)\<rparr>"
    by (intro Engine.equality) (auto simp: probeStep_def less_Suc_eq)
  finally show ?case .
qed

lemma probePhase_closed:
  "probePhase e =
     e\<lparr>terminate := terminate e \<and> (\<forall>p \<in> set (partitions e). workqueueSize p = 0)\<rparr>"
  by (simp add: probePhase_def probe_upto all_set_conv_all_nth)

section \<open>The phases after the probe keep the flag\<close>

lemma expandPhase_terminate:
  "terminate (expandPhase grid c u pk e) = terminate e"
  unfolding expandPhase_def
  by (rule fold_keeps) (simp add: expandStep_def Let_def)

lemma exchangePhase_terminate:
  "terminate (exchangePhase e) = terminate e"
  unfolding exchangePhase_def Let_def
  by (rule fold_keeps, rule fold_keeps) (simp add: recvStep_def Let_def)

lemma swapPhase_terminate:
  "terminate (swapPhase e) = terminate e"
  unfolding swapPhase_def Let_def
  by (rule fold_keeps, rule fold_keeps) (simp add: swapStep_def Let_def)

section \<open>The run loop\<close>

lemma probed_partitions:
  "partitions (compactPhase grid (scatterPhase grid c u un (e\<lparr>terminate := t\<rparr>))) =
   partitions (compactPhase grid (scatterPhase grid c u un e))"
  by (simp add: compactPhase_closed scatterPhase_closed)

lemma runStep_terminate:
  "terminate (runStep grid c u pk un e) \<longleftrightarrow>
     (\<forall>p \<in> set (partitions (compactPhase grid (scatterPhase grid c u un e))). workqueueSize p = 0)"
proof -
  let ?e2 = "compactPhase grid (scatterPhase grid c u un (e\<lparr>terminate := True\<rparr>))"
  have t2: "terminate ?e2" by (simp add: compactPhase_fields scatterPhase_fields)
  have p: "terminate (probePhase ?e2) \<longleftrightarrow> (\<forall>p \<in> set (partitions ?e2). workqueueSize p = 0)"
    by (simp add: probePhase_closed t2)
  have "terminate (runStep grid c u pk un e) \<longleftrightarrow> terminate (probePhase ?e2)"
    by (simp add: runStep_def superstep_def Let_def swapPhase_terminate
        exchangePhase_terminate expandPhase_terminate)
  then show ?thesis
    unfolding p probed_partitions .
qed

lemma runStep_quiescent:
  assumes "terminate (runStep grid c u pk un e)"
  shows "runStep grid c u pk un e =
         compactPhase grid (scatterPhase grid c u un (e\<lparr>terminate := True\<rparr>))"
proof -
  let ?e2 = "compactPhase grid (scatterPhase grid c u un (e\<lparr>terminate := True\<rparr>))"
  have t2: "terminate ?e2" by (simp add: compactPhase_fields scatterPhase_fields)
  have z: "\<forall>p \<in> set (partitions ?e2). workqueueSize p = 0"
    using assms unfolding runStep_terminate probed_partitions .
  have "probePhase ?e2 = ?e2"
    using z t2 by (simp add: probePhase_closed)
  moreover have "runStep grid c u pk un e = probePhase ?e2"
    using assms unfolding runStep_def superstep_def Let_def
    by (simp add: swapPhase_terminate exchangePhase_terminate expandPhase_terminate
        split: if_splits)
  ultimately show ?thesis by simp
qed


lemma runLoop_first:
  assumes "terminate (runStep grid c u pk un ((runStep grid c u pk un ^^ k) e))"
    and "\<forall>j < k. \<not> terminate (runStep grid c u pk un ((runStep grid c u pk un ^^ j) e))"
  shows "runLoop grid c u pk un e = Some (runStep grid c u pk un ((runStep grid c u pk un ^^ k) e))"
  using assms
proof (induction k arbitrary: e)
  case 0
  then show ?case
    by (subst runLoop.simps) (simp add: Let_def)
next
  case (Suc k)
  let ?S = "runStep grid c u pk un"
  have n0: "\<not> terminate (?S e)"
    using Suc.prems(2)[THEN spec, of 0] by simp
  have a: "terminate (?S ((?S ^^ k) (?S e)))"
    using Suc.prems(1) by (simp add: funpow_swap1)
  have b: "\<forall>j < k. \<not> terminate (?S ((?S ^^ j) (?S e)))"
  proof (intro allI impI)
    fix j assume "j < k"
    then have "\<not> terminate (?S ((?S ^^ Suc j) e))"
      using Suc.prems(2)[THEN spec, of "Suc j"] by simp
    then show "\<not> terminate (?S ((?S ^^ j) (?S e)))"
      by (simp add: funpow_swap1)
  qed
  have "runLoop grid c u pk un e = runLoop grid c u pk un (?S e)"
    using n0 by (subst runLoop.simps) (simp add: Let_def)
  also have "\<dots> = Some (?S ((?S ^^ k) (?S e)))"
    by (rule Suc.IH[OF a b])
  also have "\<dots> = Some (?S ((?S ^^ Suc k) e))"
    by (simp add: funpow_swap1)
  finally show ?case .
qed

lemma runLoop_Some:
  fixes e :: "('v, 'm) Engine"
  assumes "runLoop grid c u pk un e = Some r"
  shows "\<exists>k. terminate (runStep grid c u pk un ((runStep grid c u pk un ^^ k) e)) \<and>
             (\<forall>j < k. \<not> terminate (runStep grid c u pk un ((runStep grid c u pk un ^^ j) e))) \<and>
             r = runStep grid c u pk un ((runStep grid c u pk un ^^ k) e)"
proof (rule runLoop.raw_induct[where P = "\<lambda>grid c u pk un e r.
    \<exists>k. terminate (runStep grid c u pk un ((runStep grid c u pk un ^^ k) e)) \<and>
        (\<forall>j < k. \<not> terminate (runStep grid c u pk un ((runStep grid c u pk un ^^ j) e))) \<and>
        r = runStep grid c u pk un ((runStep grid c u pk un ^^ k) e)", OF _ assms])
  fix f :: "(nat \<Rightarrow> nat list) \<Rightarrow> ('v \<Rightarrow> bool) \<Rightarrow> ('v \<Rightarrow> 'v) \<Rightarrow> ('v \<Rightarrow> 'm) \<Rightarrow> ('m \<Rightarrow> 'v)
     \<Rightarrow> ('v, 'm) Engine \<Rightarrow> ('v, 'm) Engine option"
  fix g1 :: "nat \<Rightarrow> nat list" and c1 :: "'v \<Rightarrow> bool" and u1 :: "'v \<Rightarrow> 'v"
    and pk1 :: "'v \<Rightarrow> 'm" and un1 :: "'m \<Rightarrow> 'v" and e1 r1 :: "('v, 'm) Engine"
  let ?S = "runStep g1 c1 u1 pk1 un1"
  assume IH: "\<And>g1 c1 u1 pk1 un1 e1 r1. f g1 c1 u1 pk1 un1 e1 = Some r1 \<Longrightarrow>
    \<exists>k. terminate (runStep g1 c1 u1 pk1 un1 ((runStep g1 c1 u1 pk1 un1 ^^ k) e1)) \<and>
        (\<forall>j < k. \<not> terminate (runStep g1 c1 u1 pk1 un1 ((runStep g1 c1 u1 pk1 un1 ^^ j) e1))) \<and>
        r1 = runStep g1 c1 u1 pk1 un1 ((runStep g1 c1 u1 pk1 un1 ^^ k) e1)"
    and body: "(let e' = runStep g1 c1 u1 pk1 un1 e1
                in if terminate e' then Some e' else f g1 c1 u1 pk1 un1 e') = Some r1"
  show "\<exists>k. terminate (?S ((?S ^^ k) e1)) \<and> (\<forall>j < k. \<not> terminate (?S ((?S ^^ j) e1))) \<and>
            r1 = ?S ((?S ^^ k) e1)"
  proof (cases "terminate (?S e1)")
    case True
    then have "r1 = ?S e1" using body by (simp add: Let_def)
    then show ?thesis using True by (intro exI[of _ 0]) simp
  next
    case False
    then have "f g1 c1 u1 pk1 un1 (?S e1) = Some r1" using body by (simp add: Let_def)
    from IH[OF this] obtain k where
      k: "terminate (?S ((?S ^^ k) (?S e1)))"
        "\<forall>j < k. \<not> terminate (?S ((?S ^^ j) (?S e1)))"
        "r1 = ?S ((?S ^^ k) (?S e1))"
      by blast
    have "\<forall>j < Suc k. \<not> terminate (?S ((?S ^^ j) e1))"
    proof (intro allI impI)
      fix j assume j: "j < Suc k"
      show "\<not> terminate (?S ((?S ^^ j) e1))"
      proof (cases j)
        case 0
        then show ?thesis using False by simp
      next
        case (Suc j')
        then have "j' < k" using j by simp
        then show ?thesis using k(2) Suc by (simp add: funpow_swap1)
      qed
    qed
    moreover have "terminate (?S ((?S ^^ Suc k) e1))" "r1 = ?S ((?S ^^ Suc k) e1)"
      using k(1,3) by (simp_all add: funpow_swap1)
    ultimately show ?thesis by (intro exI[of _ "Suc k"]) blast
  qed
qed

text \<open>
  Claim C1. A turn of the run loop ends with \<open>terminate\<close> set exactly when the
  termination probe, which reads the partitions as the scatter and compact phases left
  them, finds \<open>workqueueSize = 0\<close> on every partition. In that superstep the engine
  returns the state it had after compaction: the events of the superstep are the
  scatter launches and the compaction launches only, with no expand launch and no copy
  of an outbox into an inbox, and the superstep counter is not incremented. \<^verbatim>\<open>run\<close>
  returns exactly when some superstep is such a one, and it returns the state right
  after the first of them: no superstep follows it.
\<close>

theorem run_terminates_at_quiescent_probe:
  "(terminate (runStep grid cond update pack unpack e) \<longleftrightarrow>
      (\<forall>p \<in> set (partitions (compactPhase grid (scatterPhase grid cond update unpack e))).
          workqueueSize p = 0)) \<and>
   (terminate (runStep grid cond update pack unpack e) \<longrightarrow>
      runStep grid cond update pack unpack e =
        compactPhase grid (scatterPhase grid cond update unpack (e\<lparr>terminate := True\<rparr>)) \<and>
      trace (runStep grid cond update pack unpack e) =
        trace e @ scatterEvents (partitions e) @ map CompactLaunch [0..<length (partitions e)] \<and>
      (\<forall>i j. ExpandLaunch i \<notin> set (scatterEvents (partitions e) @
                                       map CompactLaunch [0..<length (partitions e)]) \<and>
             RecvMsgs i j \<notin> set (scatterEvents (partitions e) @
                                    map CompactLaunch [0..<length (partitions e)])) \<and>
      supersteps (runStep grid cond update pack unpack e) = supersteps e) \<and>
   (run grid cond update pack unpack e = Some r \<longleftrightarrow>
      (\<exists>k. terminate (runStep grid cond update pack unpack
                ((runStep grid cond update pack unpack ^^ k) (e\<lparr>supersteps := 0\<rparr>))) \<and>
           (\<forall>j < k. \<not> terminate (runStep grid cond update pack unpack
                ((runStep grid cond update pack unpack ^^ j) (e\<lparr>supersteps := 0\<rparr>)))) \<and>
           r = runStep grid cond update pack unpack
                ((runStep grid cond update pack unpack ^^ k) (e\<lparr>supersteps := 0\<rparr>))))"
proof (intro conjI impI)
  show "terminate (runStep grid cond update pack unpack e) \<longleftrightarrow>
      (\<forall>p \<in> set (partitions (compactPhase grid (scatterPhase grid cond update unpack e))).
          workqueueSize p = 0)"
    by (rule runStep_terminate)
next
  assume t: "terminate (runStep grid cond update pack unpack e)"
  show q: "runStep grid cond update pack unpack e =
        compactPhase grid (scatterPhase grid cond update unpack (e\<lparr>terminate := True\<rparr>))"
    by (rule runStep_quiescent[OF t])
  show "trace (runStep grid cond update pack unpack e) =
        trace e @ scatterEvents (partitions e) @ map CompactLaunch [0..<length (partitions e)]"
    unfolding q by (simp add: compactPhase_closed scatterPhase_closed)
  show "\<forall>i j. ExpandLaunch i \<notin> set (scatterEvents (partitions e) @
                                       map CompactLaunch [0..<length (partitions e)]) \<and>
             RecvMsgs i j \<notin> set (scatterEvents (partitions e) @
                                    map CompactLaunch [0..<length (partitions e)])"
    by (auto simp: scatterEvents_def)
  show "supersteps (runStep grid cond update pack unpack e) = supersteps e"
    unfolding q by (simp add: compactPhase_fields scatterPhase_fields)
next
  show "run grid cond update pack unpack e = Some r \<longleftrightarrow>
      (\<exists>k. terminate (runStep grid cond update pack unpack
                ((runStep grid cond update pack unpack ^^ k) (e\<lparr>supersteps := 0\<rparr>))) \<and>
           (\<forall>j < k. \<not> terminate (runStep grid cond update pack unpack
                ((runStep grid cond update pack unpack ^^ j) (e\<lparr>supersteps := 0\<rparr>)))) \<and>
           r = runStep grid cond update pack unpack
                ((runStep grid cond update pack unpack ^^ k) (e\<lparr>supersteps := 0\<rparr>)))"
    unfolding run_def
    using runLoop_Some[of grid cond update pack unpack "e\<lparr>supersteps := 0\<rparr>" r]
      runLoop_first[of grid cond update pack unpack _ "e\<lparr>supersteps := 0\<rparr>"]
    by blast
qed


theorem run_terminates_at_quiescent_probe_witness:
  "terminate (runStep (upt 0) (\<lambda>v. v < 10) (\<lambda>v. v + 1) (\<lambda>v. v) (\<lambda>v. v) exEngine) \<and>
   list_all (\<lambda>p. workqueueSize p = 0)
     (partitions (compactPhase (upt 0)
        (scatterPhase (upt 0) (\<lambda>v. v < 10) (\<lambda>v. v + 1) (\<lambda>v. v) exEngine))) \<and>
   trace (runStep (upt 0) (\<lambda>v. v < 10) (\<lambda>v. v + 1) (\<lambda>v. v) (\<lambda>v. v) exEngine) =
     [CompactLaunch 0, CompactLaunch 1] \<and>
   run (upt 0) (\<lambda>v. v < 10) (\<lambda>v. v + 1) (\<lambda>v. v) (\<lambda>v. v) exEngine =
     Some (runStep (upt 0) (\<lambda>v. v < 10) (\<lambda>v. v + 1) (\<lambda>v. v) (\<lambda>v. v)
             (exEngine\<lparr>supersteps := 0\<rparr>))"
proof -
  let ?S = "runStep (upt 0) (\<lambda>v::int. v < 10) (\<lambda>v. v + 1) (\<lambda>v::int. v) (\<lambda>v::int. v)"
  note T = run_terminates_at_quiescent_probe[of "upt 0" "\<lambda>v. v < 10" "\<lambda>v. v + 1" "\<lambda>v. v"
      "\<lambda>v. v" exEngine "?S (exEngine\<lparr>supersteps := 0\<rparr>)"]
  have t: "terminate (?S exEngine)"
    by (simp add: runStep_def engine_defs exEngine_def exP0_def exP1_def exBox_def Let_def upt_rec)
  have t0: "terminate (?S ((?S ^^ 0) (exEngine\<lparr>supersteps := 0\<rparr>)))"
    by (simp add: runStep_def engine_defs exEngine_def exP0_def exP1_def exBox_def Let_def upt_rec)
  have ev: "scatterEvents (partitions exEngine) = []"
    by (simp add: scatterEvents_def exEngine_def exP0_def exP1_def exBox_def upt_rec)
  have up: "map CompactLaunch [0..<length (partitions exEngine)] = [CompactLaunch 0, CompactLaunch 1]"
    by (simp add: exEngine_def upt_rec)
  have tr: "trace exEngine = []" by (simp add: exEngine_def)
  have a: "list_all (\<lambda>p. workqueueSize p = 0)
     (partitions (compactPhase (upt 0)
        (scatterPhase (upt 0) (\<lambda>v. v < 10) (\<lambda>v. v + 1) (\<lambda>v. v) exEngine)))"
    unfolding list_all_iff using T[THEN conjunct1] t by blast
  have b: "trace (?S exEngine) = [CompactLaunch 0, CompactLaunch 1]"
    using T[THEN conjunct2, THEN conjunct1, THEN mp, OF t, THEN conjunct2, THEN conjunct1]
    by (simp add: ev up tr)
  have c: "run (upt 0) (\<lambda>v. v < 10) (\<lambda>v. v + 1) (\<lambda>v. v) (\<lambda>v. v) exEngine =
     Some (?S (exEngine\<lparr>supersteps := 0\<rparr>))"
    unfolding T[THEN conjunct2, THEN conjunct2]
    using t0 by (intro exI[of _ 0]) simp
  show ?thesis
    by (intro conjI t a b c)
qed

section \<open>What scatter does with a message\<close>



section \<open>The workset across a superstep\<close>

lemma scatterAll_frame:
  "vertexCount (scatterAll grid c u un n p) = vertexCount p"
  "workset p x = 0 \<or> workset p x = 1 \<Longrightarrow>
   workset (scatterAll grid c u un n p) x = 0 \<or> workset (scatterAll grid c u un n p) x = 1"
  unfolding scatterAll_def
  by (rule scatterInbox_fold_frame, rule scatterInbox_fold_flags)

lemma compactAll_zero:
  assumes "admissible grid"
    and "\<forall>x < vertexCount p. workset p x = 0 \<or> workset p x = 1"
  shows "\<forall>x < vertexCount (compactAll grid p). workset (compactAll grid p) x = 0"
  unfolding compactAll_def
  using compact_partition(4)[OF assms(1), of p, OF assms(2)]
    compact_partition(6)[OF assms(1), of p]
  by simp

text \<open>
  Claim C2 says that the workset of every partition is identically zero after every
  completed superstep, terminating or not, and at the moment compaction begins. On
  \<open>exLocal\<close>, where vertex 0 of partition 1 is marked, the first superstep completes
  (the counter goes to 1) and leaves \<open>workset[1] = 1\<close> in partition 1, which has two
  vertices: expand marked the local destination of the edge of vertex 0. And when
  compaction begins in that superstep, after the scatter phase, \<open>workset[0]\<close> is 1.
\<close>

theorem workset_nonzero_counterexample:
  "supersteps (runStep (upt 0) (\<lambda>v. v < 10) (\<lambda>v. v + 1) (\<lambda>v. v) (\<lambda>v. v) exLocal) = 1 \<and>
   vertexCount (partitions
     (runStep (upt 0) (\<lambda>v. v < 10) (\<lambda>v. v + 1) (\<lambda>v. v) (\<lambda>v. v) exLocal) ! 1) = 2 \<and>
   workset (partitions
     (runStep (upt 0) (\<lambda>v. v < 10) (\<lambda>v. v + 1) (\<lambda>v. v) (\<lambda>v. v) exLocal) ! 1) 1 = 1 \<and>
   workset (partitions
     (scatterPhase (upt 0) (\<lambda>v. v < 10) (\<lambda>v. v + 1) (\<lambda>v. v) exLocal) ! 1) 0 = 1"
  by (simp add: runStep_def engine_defs exLocal_def exEngine_def exP0_def exP1_def exBox_def
      Let_def upt_rec)

text \<open>
  Claim C2, amended. When compaction completes, every workset slot of every partition is
  0 (the workset being a 0/1 flag array when the superstep starts), and so the workset of
  every partition is identically zero after a terminating superstep. Nothing is said of
  the workset at the moment compaction begins, nor after a superstep that goes on to
  expand: there the slots of the vertices that were activated hold 1.
\<close>

theorem workset_zero_after_compaction:
  assumes "admissible grid"
    and "\<forall>p \<in> set (partitions e). \<forall>x < vertexCount p. workset p x = 0 \<or> workset p x = 1"
  shows "(\<forall>p \<in> set (partitions (compactPhase grid (scatterPhase grid cond update unpack e))).
            \<forall>x < vertexCount p. workset p x = 0) \<and>
         (terminate (runStep grid cond update pack unpack e) \<longrightarrow>
            (\<forall>p \<in> set (partitions (runStep grid cond update pack unpack e)).
               \<forall>x < vertexCount p. workset p x = 0))"
proof -
  have z: "\<forall>p \<in> set (partitions (compactPhase grid (scatterPhase grid cond update unpack e))).
            \<forall>x < vertexCount p. workset p x = 0"
  proof
    fix q assume "q \<in> set (partitions (compactPhase grid (scatterPhase grid cond update unpack e)))"
    then obtain p where p: "p \<in> set (partitions e)"
      and q: "q = compactAll grid (scatterAll grid cond update unpack (length (partitions e)) p)"
      by (auto simp: compactPhase_closed scatterPhase_closed)
    let ?s = "scatterAll grid cond update unpack (length (partitions e)) p"
    have "\<forall>x < vertexCount ?s. workset ?s x = 0 \<or> workset ?s x = 1"
      using assms(2) p by (simp add: scatterAll_frame)
    then show "\<forall>x < vertexCount q. workset q x = 0"
      unfolding q by (rule compactAll_zero[OF assms(1)])
  qed
  show ?thesis
  proof (intro conjI impI)
    show "\<forall>p \<in> set (partitions (compactPhase grid (scatterPhase grid cond update unpack e))).
            \<forall>x < vertexCount p. workset p x = 0"
      by (rule z)
  next
    assume t: "terminate (runStep grid cond update pack unpack e)"
    show "\<forall>p \<in> set (partitions (runStep grid cond update pack unpack e)).
               \<forall>x < vertexCount p. workset p x = 0"
      unfolding runStep_quiescent[OF t] probed_partitions by (rule z)
  qed
qed

theorem workset_zero_after_compaction_witness:
  "admissible (upt 0) \<and>
   workset (partitions exLocal ! 1) 0 = 1 \<and>
   list_all (\<lambda>p. list_all (\<lambda>x. workset p x = 0) [0..<vertexCount p])
     (partitions (compactPhase (upt 0)
        (scatterPhase (upt 0) (\<lambda>v. v < 10) (\<lambda>v. v + 1) (\<lambda>v. v) exLocal))) \<and>
   terminate (runStep (upt 0) (\<lambda>v. v < 10) (\<lambda>v. v + 1) (\<lambda>v. v) (\<lambda>v. v) exEngine) \<and>
   list_all (\<lambda>p. list_all (\<lambda>x. workset p x = 0) [0..<vertexCount p])
     (partitions (runStep (upt 0) (\<lambda>v. v < 10) (\<lambda>v. v + 1) (\<lambda>v. v) (\<lambda>v. v) exEngine))"
proof -
  have f1: "\<forall>p \<in> set (partitions exLocal). \<forall>x < vertexCount p. workset p x = 0 \<or> workset p x = 1"
    by (simp add: exLocal_def exEngine_def exP0_def exP1_def)
  have f2: "\<forall>p \<in> set (partitions exEngine). \<forall>x < vertexCount p. workset p x = 0 \<or> workset p x = 1"
    by (simp add: exEngine_def exP0_def exP1_def)
  have one: "workset (partitions exLocal ! 1) 0 = 1"
    by (simp add: exLocal_def exEngine_def exP1_def)
  have t: "terminate (runStep (upt 0) (\<lambda>v. v < 10) (\<lambda>v. v + 1) (\<lambda>v. v) (\<lambda>v. v) exEngine)"
    by (simp add: runStep_def engine_defs exEngine_def exP0_def exP1_def exBox_def Let_def upt_rec)
  note T1 = workset_zero_after_compaction[OF admissible_upt f1, of "\<lambda>v. v < 10" "\<lambda>v. v + 1"
      "\<lambda>v. v" "\<lambda>v. v"]
  note T2 = workset_zero_after_compaction[OF admissible_upt f2, of "\<lambda>v. v < 10" "\<lambda>v. v + 1"
      "\<lambda>v. v" "\<lambda>v. v"]
  have z1: "list_all (\<lambda>p. list_all (\<lambda>x. workset p x = 0) [0..<vertexCount p])
     (partitions (compactPhase (upt 0)
        (scatterPhase (upt 0) (\<lambda>v. v < 10) (\<lambda>v. v + 1) (\<lambda>v. v) exLocal)))"
    unfolding list_all_iff using T1[THEN conjunct1] by simp
  have z2: "list_all (\<lambda>p. list_all (\<lambda>x. workset p x = 0) [0..<vertexCount p])
     (partitions (runStep (upt 0) (\<lambda>v. v < 10) (\<lambda>v. v + 1) (\<lambda>v. v) (\<lambda>v. v) exEngine))"
    unfolding list_all_iff using T2[THEN conjunct2, THEN mp, OF t] by simp
  show ?thesis
    by (intro conjI admissible_upt one z1 t z2)
qed

section \<open>Messages across supersteps\<close>

text \<open>\<open>exSeeded\<close> is what \<^verbatim>\<open>vertexFilter(0, f)\<close> with \<open>f v = 7\<close> makes of the
  partitions of \<open>exEngine\<close>. Three turns of the run loop on \<open>exSeeded\<close>, evaluated: the events of the three
  supersteps, and the inbox of partition 1 from partition 0 after the first and after
  the second superstep.\<close>

lemma exSeeded_reached:
  "partitions (vertexFilter (upt 0) 0 (\<lambda>_. 7) exEngine) = partitions exSeeded"
  by (simp add: vertexFilter_def vertexFilterStep_def launch_def vertexFilterKernel_def
      exSeeded_def exEngine_def exP0_def exP1_def Let_def upt_rec)

lemma exSeeded_three_steps_trace:
  "trace (exStep (exStep (exStep exSeeded))) =
     [CompactLaunch 0, CompactLaunch 1, ExpandLaunch 0, RecvMsgs 0 1, RecvMsgs 1 0,
      ScatterLaunch 1 0, CompactLaunch 0, CompactLaunch 1, ExpandLaunch 1, RecvMsgs 0 1,
      RecvMsgs 1 0,
      ScatterLaunch 1 0, CompactLaunch 0, CompactLaunch 1, ExpandLaunch 1, RecvMsgs 0 1,
      RecvMsgs 1 0]"
  by (simp add: exStep_def runStep_def engine_defs exSeeded_def exEngine_def exP0_def exP1_def
      exBox_def Let_def upt_rec)

lemma exSeeded_inbox_after_one_step:
  "messages (inboxes (partitions (exStep exSeeded) ! 1) 0) = [\<lparr>receiverId = 0, value_msg = 7\<rparr>]"
  by (simp add: exStep_def runStep_def engine_defs exSeeded_def exEngine_def exP0_def exP1_def
      exBox_def messages_def Let_def upt_rec)

lemma exSeeded_inbox_after_two_steps:
  "messages (inboxes (partitions (exStep (exStep exSeeded)) ! 1) 0) =
     [\<lparr>receiverId = 0, value_msg = 7\<rparr>]"
  by (simp add: exStep_def runStep_def engine_defs exSeeded_def exEngine_def exP0_def exP1_def
      exBox_def messages_def Let_def upt_rec)

text \<open>
  Claim C3 says that a message pushed into an outbox during superstep \<open>t\<close> is read by
  scatter exactly once, in superstep \<open>t + 1\<close>, and is not delivered again later. On
  \<open>exSeeded\<close>, partition 0 expands in superstep 0 only and pushes one message, for
  vertex 0 of partition 1 with payload 7. The exchange of superstep 0 delivers it and
  partition 1 scatters it in superstep 1. In superstep 1 partition 0 has an empty
  workqueue, so the loop over the partitions skips it before its outboxes are cleared;
  the exchange of superstep 1 copies the same outbox again, the inbox of partition 1
  holds the message of superstep 0 once more, and partition 1 scatters it a second
  time in superstep 2.
\<close>

theorem stale_outbox_delivered_again:
  "trace (exStep (exStep (exStep exSeeded))) =
     [CompactLaunch 0, CompactLaunch 1, ExpandLaunch 0, RecvMsgs 0 1, RecvMsgs 1 0,
      ScatterLaunch 1 0, CompactLaunch 0, CompactLaunch 1, ExpandLaunch 1, RecvMsgs 0 1,
      RecvMsgs 1 0,
      ScatterLaunch 1 0, CompactLaunch 0, CompactLaunch 1, ExpandLaunch 1, RecvMsgs 0 1,
      RecvMsgs 1 0] \<and>
   messages (inboxes (partitions (exStep exSeeded) ! 1) 0) =
     [\<lparr>receiverId = 0, value_msg = 7\<rparr>] \<and>
   messages (inboxes (partitions (exStep (exStep exSeeded)) ! 1) 0) =
     [\<lparr>receiverId = 0, value_msg = 7\<rparr>]"
  by (intro conjI exSeeded_three_steps_trace exSeeded_inbox_after_one_step
      exSeeded_inbox_after_two_steps)

end
